theory Spec2Isabelle
  imports Complex_Main
begin

section \<open>JavaScript numbers\<close>

text \<open>
  The program computes with JavaScript numbers. A number is modelled as a finite real or
  one of the three special values an IEEE operation can return. The operations of this
  section are exact on finite values; the rounding of doubles, the rounding of a store
  into a \<^verbatim>\<open>Float32Array\<close> and overflow to infinity are added in the next one. A zero carries no
  sign; a zero divisor is treated as \<^verbatim>\<open>+0\<close>, which is the only zero the pipeline
  divides by (a sum of squares, a difference of two equal values).
\<close>

datatype jsnum = Fin real | PInf | NInf | NaN

fun js_neg :: "jsnum \<Rightarrow> jsnum" where
  "js_neg (Fin x) = Fin (- x)"
| "js_neg PInf = NInf"
| "js_neg NInf = PInf"
| "js_neg NaN = NaN"

fun js_add :: "jsnum \<Rightarrow> jsnum \<Rightarrow> jsnum" where
  "js_add (Fin x) (Fin y) = Fin (x + y)"
| "js_add NaN b = NaN"
| "js_add a NaN = NaN"
| "js_add PInf NInf = NaN"
| "js_add NInf PInf = NaN"
| "js_add PInf b = PInf"
| "js_add a PInf = PInf"
| "js_add NInf b = NInf"
| "js_add a NInf = NInf"

definition js_sub :: "jsnum \<Rightarrow> jsnum \<Rightarrow> jsnum" where
  "js_sub a b = js_add a (js_neg b)"

text \<open>The sign of an infinite product or quotient: kept when the flag is true.\<close>

fun js_inf :: "bool \<Rightarrow> jsnum" where
  "js_inf True = PInf"
| "js_inf False = NInf"

fun js_mul :: "jsnum \<Rightarrow> jsnum \<Rightarrow> jsnum" where
  "js_mul (Fin x) (Fin y) = Fin (x * y)"
| "js_mul NaN b = NaN"
| "js_mul a NaN = NaN"
| "js_mul PInf (Fin y) = (if y = 0 then NaN else js_inf (0 < y))"
| "js_mul NInf (Fin y) = (if y = 0 then NaN else js_inf (y < 0))"
| "js_mul (Fin x) PInf = (if x = 0 then NaN else js_inf (0 < x))"
| "js_mul (Fin x) NInf = (if x = 0 then NaN else js_inf (x < 0))"
| "js_mul PInf PInf = PInf"
| "js_mul PInf NInf = NInf"
| "js_mul NInf PInf = NInf"
| "js_mul NInf NInf = PInf"

fun js_div :: "jsnum \<Rightarrow> jsnum \<Rightarrow> jsnum" where
  "js_div (Fin x) (Fin y) =
     (if y = 0 then (if x = 0 then NaN else js_inf (0 < x)) else Fin (x / y))"
| "js_div NaN b = NaN"
| "js_div a NaN = NaN"
| "js_div (Fin x) PInf = Fin 0"
| "js_div (Fin x) NInf = Fin 0"
| "js_div PInf (Fin y) = js_inf (0 \<le> y)"
| "js_div NInf (Fin y) = js_inf (y < 0)"
| "js_div PInf PInf = NaN"
| "js_div PInf NInf = NaN"
| "js_div NInf PInf = NaN"
| "js_div NInf NInf = NaN"

text \<open>The comparisons \<^verbatim>\<open><\<close> and \<^verbatim>\<open>>=\<close>: false as soon as one side is NaN.\<close>

fun js_lt :: "jsnum \<Rightarrow> jsnum \<Rightarrow> bool" where
  "js_lt (Fin x) (Fin y) = (x < y)"
| "js_lt NaN b = False"
| "js_lt a NaN = False"
| "js_lt a NInf = False"
| "js_lt PInf b = False"
| "js_lt NInf b = True"
| "js_lt a PInf = True"

fun js_ge :: "jsnum \<Rightarrow> jsnum \<Rightarrow> bool" where
  "js_ge NaN b = False"
| "js_ge a NaN = False"
| "js_ge a b = (\<not> js_lt a b)"

text \<open>Truthiness of a number in a condition: zero and NaN are falsy.\<close>

fun truthy :: "jsnum \<Rightarrow> bool" where
  "truthy (Fin x) = (x \<noteq> 0)"
| "truthy NaN = False"
| "truthy PInf = True"
| "truthy NInf = True"

fun Math_log2 :: "jsnum \<Rightarrow> jsnum" where
  "Math_log2 (Fin x) = (if x < 0 then NaN else if x = 0 then NInf else Fin (log 2 x))"
| "Math_log2 PInf = PInf"
| "Math_log2 NInf = NaN"
| "Math_log2 NaN = NaN"

text \<open>\<^verbatim>\<open>Math.round\<close> rounds to the nearest integer, a tie towards \<open>+\<infinity>\<close>.\<close>

fun Math_round :: "jsnum \<Rightarrow> jsnum" where
  "Math_round (Fin x) = Fin (of_int \<lfloor>x + 1 / 2\<rfloor>)"
| "Math_round PInf = PInf"
| "Math_round NInf = NInf"
| "Math_round NaN = NaN"


section \<open>IEEE rounding\<close>

text \<open>
  The operations above are exact on finite values. This section adds what the program's
  numbers do to an exact result: it is rounded to the nearest double, or to the nearest
  single when it is stored into a \<^verbatim>\<open>Float32Array\<close>, and it overflows to an infinity.
  The functions whose values depend on the rounding are given with it as well, next to
  their exact versions.
\<close>

text \<open>
  Rounding to the nearest integer, a tie to the even one.
\<close>

definition round_even :: "real \<Rightarrow> int" where
  "round_even y =
     (let f = \<lfloor>y\<rfloor>
      in if y - of_int f < 1 / 2 then f
         else if 1 / 2 < y - of_int f then f + 1
         else if even f then f else f + 1)"

text \<open>
  A binary format has \<open>p\<close> bits of precision and the least exponent \<open>emin\<close> of a
  normal number. The values of the format near \<open>x\<close> are the integer multiples of 2 to
  the power \<open>ulp_exponent p emin x\<close>: the exponent of \<open>x\<close>, or \<open>emin\<close> when \<open>x\<close> is
  subnormal, less the \<open>p - 1\<close> fraction bits.
\<close>

definition ulp_exponent :: "nat \<Rightarrow> int \<Rightarrow> real \<Rightarrow> int" where
  "ulp_exponent p emin x = max \<lfloor>log 2 \<bar>x\<bar>\<rfloor> emin - (int p - 1)"

text \<open>
  The nearest value of the format, a tie to the even significand, with no bound on the
  exponent.
\<close>

definition round_binary :: "nat \<Rightarrow> int \<Rightarrow> real \<Rightarrow> real" where
  "round_binary p emin x =
     (if x = 0 then 0
      else of_int (round_even (x / 2 powr of_int (ulp_exponent p emin x))) *
           2 powr of_int (ulp_exponent p emin x))"

text \<open>
  The result of an operation whose exact value is \<open>v\<close>: rounded, and an infinity when the
  rounded value is beyond the largest exponent \<open>emax\<close> of the format.
\<close>

definition to_format :: "nat \<Rightarrow> int \<Rightarrow> int \<Rightarrow> jsnum \<Rightarrow> jsnum" where
  "to_format p emin emax v =
     (case v of
        Fin x \<Rightarrow>
          (let r = round_binary p emin x
           in if \<bar>r\<bar> < 2 powr of_int (emax + 1) then Fin r else js_inf (0 < x))
      | PInf \<Rightarrow> PInf
      | NInf \<Rightarrow> NInf
      | NaN \<Rightarrow> NaN)"

text \<open>
  The two formats of the program: a number is a double, an element of a
  \<^verbatim>\<open>Float32Array\<close> is a single.
\<close>

definition to_double :: "jsnum \<Rightarrow> jsnum" where
  "to_double = to_format 53 (- 1022) 1023"

definition to_float32 :: "jsnum \<Rightarrow> jsnum" where
  "to_float32 = to_format 24 (- 126) 127"

text \<open>
  The arithmetic operators on doubles: the exact result, rounded.
\<close>

definition d_add :: "jsnum \<Rightarrow> jsnum \<Rightarrow> jsnum" where
  "d_add a b = to_double (js_add a b)"

definition d_sub :: "jsnum \<Rightarrow> jsnum \<Rightarrow> jsnum" where
  "d_sub a b = to_double (js_sub a b)"

definition d_mul :: "jsnum \<Rightarrow> jsnum \<Rightarrow> jsnum" where
  "d_mul a b = to_double (js_mul a b)"

definition d_div :: "jsnum \<Rightarrow> jsnum \<Rightarrow> jsnum" where
  "d_div a b = to_double (js_div a b)"

section \<open>js/utils.js: the note mapping\<close>

definition frequencyToMidiNote :: "jsnum \<Rightarrow> jsnum" where
  "frequencyToMidiNote frequency =
     Math_round (js_add (Fin 69) (js_mul (Fin 12) (Math_log2 (js_div frequency (Fin 440)))))"


section \<open>js/midiConverter.js: the note tracker\<close>

text \<open>
  A \<^verbatim>\<open>Set\<close> of numbers is the list of its members in insertion order, without
  repetition. Membership is SameValueZero, which on \<^typ>\<open>jsnum\<close> is equality
  (NaN is a member like any other value).
\<close>

type_synonym jsset = "jsnum list"

definition Set_has :: "jsset \<Rightarrow> jsnum \<Rightarrow> bool" where
  "Set_has s x = (x \<in> set s)"

definition Set_add :: "jsset \<Rightarrow> jsnum \<Rightarrow> jsset" where
  "Set_add s x = (if x \<in> set s then s else s @ [x])"

definition Set_delete :: "jsset \<Rightarrow> jsnum \<Rightarrow> jsset" where
  "Set_delete s x = filter (\<lambda>y. y \<noteq> x) s"

text \<open>
  The converter's state. \<open>midiOutput\<close> is \<open>None\<close> for \<^verbatim>\<open>null\<close>; a selected
  device is \<open>Some sent\<close>, the messages it has been sent so far, oldest first (a message
  is the array of numbers passed to \<^verbatim>\<open>send\<close>, which is taken to accept every
  message). \<open>midiAccess\<close> is read by the device setup only and is left out.
\<close>

type_synonym midi_message = "jsnum list"

record MIDIConverter =
  midiOutput :: "midi_message list option"
  activeNotes :: jsset

definition MIDIConverter_new :: MIDIConverter where
  "MIDIConverter_new = \<lparr>midiOutput = None, activeNotes = []\<rparr>"

text \<open>The method of the class, the same expression as the function of utils.js.\<close>

definition MIDIConverter_frequencyToMidiNote :: "jsnum \<Rightarrow> jsnum" where
  "MIDIConverter_frequencyToMidiNote frequency =
     Math_round (js_add (Fin 69) (js_mul (Fin 12) (Math_log2 (js_div frequency (Fin 440)))))"

definition sendNoteOn :: "MIDIConverter \<Rightarrow> jsnum \<Rightarrow> jsnum \<Rightarrow> MIDIConverter" where
  "sendNoteOn c midiNote velocity =
     (case midiOutput c of
        None \<Rightarrow> c
      | Some sent \<Rightarrow>
          if \<not> Set_has (activeNotes c) midiNote
          then c\<lparr>midiOutput := Some (sent @ [[Fin 144, midiNote, velocity]]),
                 activeNotes := Set_add (activeNotes c) midiNote\<rparr>
          else c)"

definition sendNoteOff :: "MIDIConverter \<Rightarrow> jsnum \<Rightarrow> MIDIConverter" where
  "sendNoteOff c midiNote =
     (case midiOutput c of
        None \<Rightarrow> c
      | Some sent \<Rightarrow>
          if Set_has (activeNotes c) midiNote
          then c\<lparr>midiOutput := Some (sent @ [[Fin 128, midiNote, Fin 0]]),
                 activeNotes := Set_delete (activeNotes c) midiNote\<rparr>
          else c)"

record pitch =
  freq :: jsnum
  probability :: jsnum

text \<open>
  The first \<^verbatim>\<open>forEach\<close> of \<^verbatim>\<open>handleDetectedPitches\<close>: one step per detected
  pitch, on the pair of the local set \<open>detectedNotes\<close> and the converter.
\<close>

definition detect_step :: "jsnum \<Rightarrow> pitch \<Rightarrow> jsset \<times> MIDIConverter \<Rightarrow> jsset \<times> MIDIConverter" where
  "detect_step noteThreshold p acc =
     (if js_ge (probability p) noteThreshold
      then let midiNote = MIDIConverter_frequencyToMidiNote (freq p)
           in (Set_add (fst acc) midiNote, sendNoteOn (snd acc) midiNote (Fin 100))
      else acc)"

text \<open>
  The second \<^verbatim>\<open>forEach\<close> runs over \<open>activeNotes\<close> while \<^verbatim>\<open>sendNoteOff\<close> deletes
  from it. The only member deleted during a visit is the one being visited and none is
  added, so the visit goes through the members the set had when the loop started.
\<close>

definition release_step :: "jsset \<Rightarrow> jsnum \<Rightarrow> MIDIConverter \<Rightarrow> MIDIConverter" where
  "release_step detectedNotes activeNote c =
     (if \<not> Set_has detectedNotes activeNote then sendNoteOff c activeNote else c)"

definition handleDetectedPitches :: "MIDIConverter \<Rightarrow> pitch list \<Rightarrow> jsnum \<Rightarrow> MIDIConverter" where
  "handleDetectedPitches c detectedPitches noteThreshold =
     (let (detectedNotes, c1) = fold (detect_step noteThreshold) detectedPitches ([], c)
      in fold (release_step detectedNotes) (activeNotes c1) c1)"

text \<open>
  The candidate notes of a call: the notes of the pitches whose probability reaches the
  threshold, in the order of the pitches.
\<close>

definition candidateNotes :: "pitch list \<Rightarrow> jsnum \<Rightarrow> jsnum list" where
  "candidateNotes detectedPitches noteThreshold =
     map (\<lambda>p. MIDIConverter_frequencyToMidiNote (freq p))
       (filter (\<lambda>p. js_ge (probability p) noteThreshold) detectedPitches)"

definition noteOn :: "jsnum \<Rightarrow> midi_message" where
  "noteOn n = [Fin 144, n, Fin 100]"

definition noteOff :: "jsnum \<Rightarrow> midi_message" where
  "noteOff n = [Fin 128, n, Fin 0]"

section \<open>js/audioProcessor.js: the pitch estimator\<close>

definition BUFFER_SIZE :: nat where
  "BUFFER_SIZE = 2048"

definition YIN_THRESHOLD :: jsnum where
  "YIN_THRESHOLD = Fin 0.15"

definition SAMPLE_RATE :: jsnum where
  "SAMPLE_RATE = Fin 44100"

text \<open>
  A typed array is the list of its elements. Reading an index outside the array gives
  \<^verbatim>\<open>undefined\<close> (\<open>None\<close>), which arithmetic and comparisons convert to NaN; a write
  outside the array is ignored.
\<close>

definition ta_get :: "jsnum list \<Rightarrow> int \<Rightarrow> jsnum option" where
  "ta_get a i = (if 0 \<le> i \<and> i < int (length a) then Some (a ! nat i) else None)"

definition ToNumber :: "jsnum option \<Rightarrow> jsnum" where
  "ToNumber v = (case v of None \<Rightarrow> NaN | Some x \<Rightarrow> x)"

definition ta_set :: "jsnum list \<Rightarrow> nat \<Rightarrow> jsnum \<Rightarrow> jsnum list" where
  "ta_set a i v = (if i < length a then a[i := v] else a)"

text \<open>
  The two buffers of the processor; the audio nodes and the callback slot are left out
  (the callback is the one the application installs, see \<open>onaudioprocess\<close> below).
\<close>

record AudioProcessor =
  audioBuffer :: "jsnum list"
  yinBuffer :: "jsnum list"

definition AudioProcessor_new :: AudioProcessor where
  "AudioProcessor_new =
     \<lparr>audioBuffer = replicate BUFFER_SIZE (Fin 0),
      yinBuffer = replicate (BUFFER_SIZE div 2) (Fin 0)\<rparr>"

text \<open>The body of the inner loop of \<^verbatim>\<open>difference\<close>, at lag \<open>tau\<close> and index \<open>i\<close>.\<close>

definition difference_step :: "jsnum list \<Rightarrow> nat \<Rightarrow> nat \<Rightarrow> jsnum list \<Rightarrow> jsnum list" where
  "difference_step buffer tau i yb =
     (let delta = js_sub (ToNumber (ta_get buffer (int i)))
                         (ToNumber (ta_get buffer (int (i + tau))))
      in ta_set yb tau (js_add (ToNumber (ta_get yb (int tau))) (js_mul delta delta)))"

text \<open>
  The square that one step adds, and the value the inner loop accumulates from zero over
  the indices below \<open>n\<close>; both are used to state what \<open>difference\<close> leaves in the buffer.
\<close>

definition delta_squared :: "jsnum list \<Rightarrow> nat \<Rightarrow> nat \<Rightarrow> jsnum" where
  "delta_squared buffer tau i =
     (let delta = js_sub (ToNumber (ta_get buffer (int i)))
                         (ToNumber (ta_get buffer (int (i + tau))))
      in js_mul delta delta)"

definition difference_sum :: "jsnum list \<Rightarrow> nat \<Rightarrow> nat \<Rightarrow> jsnum" where
  "difference_sum buffer n tau =
     fold (\<lambda>i acc. js_add acc (delta_squared buffer tau i)) [0..<n] (Fin 0)"

definition difference :: "AudioProcessor \<Rightarrow> jsnum list \<Rightarrow> AudioProcessor" where
  "difference s buffer =
     (let n = length (yinBuffer s);
          zeroed = fold (\<lambda>tau yb. ta_set yb tau (Fin 0)) [0..<n] (yinBuffer s)
      in s\<lparr>yinBuffer :=
             fold (\<lambda>tau yb. fold (difference_step buffer tau) [0..<n] yb) [1..<n] zeroed\<rparr>)"

text \<open>
  A store into a \<^verbatim>\<open>Float32Array\<close> rounds the double to a single. The functions below are
  \<^verbatim>\<open>difference\<close> once more, with every operation and every store rounded as the
  program does it: \<open>difference_step_f32\<close> is the body of the inner loop,
  \<open>delta_squared_f64\<close> the square it adds, \<open>difference_sum_f32\<close> what the inner loop
  accumulates from zero and \<open>difference_f32\<close> the function.
\<close>

definition f32_set :: "jsnum list \<Rightarrow> nat \<Rightarrow> jsnum \<Rightarrow> jsnum list" where
  "f32_set a i v = ta_set a i (to_float32 v)"

definition difference_step_f32 :: "jsnum list \<Rightarrow> nat \<Rightarrow> nat \<Rightarrow> jsnum list \<Rightarrow> jsnum list" where
  "difference_step_f32 buffer tau i yb =
     (let delta = d_sub (ToNumber (ta_get buffer (int i)))
                        (ToNumber (ta_get buffer (int (i + tau))))
      in f32_set yb tau (d_add (ToNumber (ta_get yb (int tau))) (d_mul delta delta)))"

definition delta_squared_f64 :: "jsnum list \<Rightarrow> nat \<Rightarrow> nat \<Rightarrow> jsnum" where
  "delta_squared_f64 buffer tau i =
     (let delta = d_sub (ToNumber (ta_get buffer (int i)))
                        (ToNumber (ta_get buffer (int (i + tau))))
      in d_mul delta delta)"

definition difference_sum_f32 :: "jsnum list \<Rightarrow> nat \<Rightarrow> nat \<Rightarrow> jsnum" where
  "difference_sum_f32 buffer n tau =
     fold (\<lambda>i acc. to_float32 (d_add acc (delta_squared_f64 buffer tau i))) [0..<n] (Fin 0)"

definition difference_f32 :: "AudioProcessor \<Rightarrow> jsnum list \<Rightarrow> AudioProcessor" where
  "difference_f32 s buffer =
     (let n = length (yinBuffer s);
          zeroed = fold (\<lambda>tau yb. f32_set yb tau (Fin 0)) [0..<n] (yinBuffer s)
      in s\<lparr>yinBuffer :=
             fold (\<lambda>tau yb. fold (difference_step_f32 buffer tau) [0..<n] yb) [1..<n] zeroed\<rparr>)"

text \<open>
  The difference function as a sum of real numbers, \<open>d(\<tau>)\<close> of the YIN method, for a
  frame \<open>x\<close> and a buffer of \<open>h\<close> lags.
\<close>

definition difference_exact :: "real list \<Rightarrow> nat \<Rightarrow> nat \<Rightarrow> real" where
  "difference_exact x h tau = (\<Sum>i<h. (x ! i - x ! (i + tau))\<^sup>2)"

text \<open>
  A sample between -1 and 1 that is an integer multiple of \<open>1 / 2\<^sup>k\<close>.
\<close>

definition on_grid :: "nat \<Rightarrow> real \<Rightarrow> bool" where
  "on_grid k x \<longleftrightarrow> \<bar>x\<bar> \<le> 1 \<and> of_int \<lfloor>x * 2 ^ k\<rfloor> = x * 2 ^ k"

text \<open>
  The loop of \<^verbatim>\<open>cumulativeMeanNormalizedDifference\<close>, on the pair of \<open>runningSum\<close>
  and the buffer.
\<close>

definition cmnd_step :: "nat \<Rightarrow> jsnum \<times> jsnum list \<Rightarrow> jsnum \<times> jsnum list" where
  "cmnd_step tau acc =
     (let runningSum = js_add (fst acc) (ToNumber (ta_get (snd acc) (int tau)))
      in (runningSum,
          ta_set (snd acc) tau
            (js_mul (ToNumber (ta_get (snd acc) (int tau)))
                    (js_div (Fin (real tau)) runningSum))))"

definition cumulativeMeanNormalizedDifference :: "AudioProcessor \<Rightarrow> AudioProcessor" where
  "cumulativeMeanNormalizedDifference s =
     (let yb = ta_set (yinBuffer s) 0 (Fin 1)
      in s\<lparr>yinBuffer := snd (fold cmnd_step [1..<length yb] (Fin 0, yb))\<rparr>)"

text \<open>The \<^verbatim>\<open>while\<close> loop of \<^verbatim>\<open>absoluteThreshold\<close>: descent to the local minimum.\<close>

function absoluteThreshold_descend :: "jsnum list \<Rightarrow> nat \<Rightarrow> nat" where
  "absoluteThreshold_descend yb tau =
     (if tau + 1 < length yb \<and>
         js_lt (ToNumber (ta_get yb (int (tau + 1)))) (ToNumber (ta_get yb (int tau)))
      then absoluteThreshold_descend yb (tau + 1)
      else tau)"
  by pat_completeness auto
termination
  by (relation "measure (\<lambda>(yb, tau). length yb - tau)") auto

text \<open>The \<^verbatim>\<open>for\<close> loop of \<^verbatim>\<open>absoluteThreshold\<close>, from lag \<open>tau\<close> on.\<close>

function absoluteThreshold_scan :: "jsnum list \<Rightarrow> nat \<Rightarrow> int" where
  "absoluteThreshold_scan yb tau =
     (if tau < length yb
      then (if js_lt (ToNumber (ta_get yb (int tau))) YIN_THRESHOLD
            then int (absoluteThreshold_descend yb tau)
            else absoluteThreshold_scan yb (tau + 1))
      else - 1)"
  by pat_completeness auto
termination
  by (relation "measure (\<lambda>(yb, tau). length yb - tau)") auto

declare absoluteThreshold_descend.simps [simp del] absoluteThreshold_scan.simps [simp del]

definition absoluteThreshold :: "AudioProcessor \<Rightarrow> int" where
  "absoluteThreshold s = absoluteThreshold_scan (yinBuffer s) 1"

definition parabolicInterpolation :: "AudioProcessor \<Rightarrow> int \<Rightarrow> jsnum" where
  "parabolicInterpolation s tau =
     (let y1 = ToNumber (ta_get (yinBuffer s) (tau - 1));
          y2 = ToNumber (ta_get (yinBuffer s) tau);
          y3 = ToNumber (ta_get (yinBuffer s) (tau + 1))
      in js_add (Fin (of_int tau))
           (js_div (js_sub y3 y1)
              (js_mul (Fin 2) (js_sub (js_sub (js_mul (Fin 2) y2) y1) y3))))"

text \<open>
  \<^verbatim>\<open>detectPitch\<close> returns the processor with its rewritten difference buffer and the
  pitch, \<open>None\<close> for \<^verbatim>\<open>null\<close>.
\<close>

definition detectPitch :: "AudioProcessor \<Rightarrow> jsnum list \<Rightarrow> AudioProcessor \<times> jsnum option" where
  "detectPitch s buffer =
     (let s1 = cumulativeMeanNormalizedDifference (difference s buffer);
          tau = absoluteThreshold s1
      in if tau = - 1 then (s1, None)
         else (s1, Some (js_div SAMPLE_RATE (parabolicInterpolation s1 tau))))"

datatype js_error = RangeError

text \<open>
  \<^verbatim>\<open>processAudio\<close>. \<^verbatim>\<open>TypedArray.prototype.set\<close> throws a RangeError, before it
  writes anything, when the source is longer than the target; otherwise it overwrites
  the first elements of the target and leaves the rest. The result is the processor
  after the call and either the error thrown or the argument the pitch callback was
  called with (\<open>None\<close> when it was not called).
\<close>

definition processAudio ::
  "AudioProcessor \<Rightarrow> jsnum list \<Rightarrow> AudioProcessor \<times> (js_error + jsnum option)" where
  "processAudio s inputBuffer =
     (if length (audioBuffer s) < length inputBuffer then (s, Inl RangeError)
      else
        let s0 = s\<lparr>audioBuffer := inputBuffer @ drop (length inputBuffer) (audioBuffer s)\<rparr>;
            r = detectPitch s0 (audioBuffer s0)
        in (fst r,
            Inr (case snd r of
                   None \<Rightarrow> None
                 | Some p \<Rightarrow> if truthy p then Some p else None)))"

text \<open>
  Two frames of 2048 samples used below. The first has three unit impulses, at 0, 1023
  and 2046, and is periodic with the longest lag the buffer holds. The second alternates
  between 1 and -1, except for its first sample.
\<close>

definition boundary_frame :: "jsnum list" where
  "boundary_frame = (replicate 2048 (Fin 0))[0 := Fin 1, 1023 := Fin 1, 2046 := Fin 1]"

definition alternating_frame :: "jsnum list" where
  "alternating_frame = (concat (replicate 1024 [Fin 1, Fin (- 1)]))[0 := Fin (1 / 2)]"

text \<open>
  A frame of 2048 samples, all of them singles: 1, 0, \<open>1 / 8192\<close> and zeros.
\<close>

definition rounding_frame :: "real list" where
  "rounding_frame = (replicate 2048 0)[0 := 1, 2 := 1 / 8192]"

section \<open>js/app.js: the wiring\<close>

record App =
  audioProcessor :: AudioProcessor
  midiConverter :: MIDIConverter
  onsetThreshold :: jsnum
  noteThreshold :: jsnum

definition App_new :: App where
  "App_new =
     \<lparr>audioProcessor = AudioProcessor_new, midiConverter = MIDIConverter_new,
      onsetThreshold = Fin 0.02, noteThreshold = Fin 0.8\<rparr>"

text \<open>The local \<open>detectedPitches\<close> that \<^verbatim>\<open>handlePitchDetected\<close> builds from a pitch.\<close>

definition detectedPitches :: "jsnum \<Rightarrow> pitch list" where
  "detectedPitches p = [\<lparr>freq = p, probability = Fin 1\<rparr>]"

text \<open>The display of the note name touches the page only and is left out.\<close>

definition handlePitchDetected :: "App \<Rightarrow> jsnum \<Rightarrow> App" where
  "handlePitchDetected app p =
     app\<lparr>midiConverter :=
           handleDetectedPitches (midiConverter app) (detectedPitches p) (noteThreshold app)\<rparr>"

text \<open>
  One audio callback of the running application: \<^verbatim>\<open>processAudio\<close> on the frame, with
  \<^verbatim>\<open>handlePitchDetected\<close> as the pitch callback. The result is the application after
  the call and the error thrown, if any.
\<close>

definition onaudioprocess :: "App \<Rightarrow> jsnum list \<Rightarrow> App \<times> js_error option" where
  "onaudioprocess app inputBuffer =
     (let r = processAudio (audioProcessor app) inputBuffer;
          app1 = app\<lparr>audioProcessor := fst r\<rparr>
      in case snd r of
           Inl e \<Rightarrow> (app1, Some e)
         | Inr None \<Rightarrow> (app1, None)
         | Inr (Some p) \<Rightarrow> (handlePitchDetected app1 p, None))"

section \<open>Properties of the rounding\<close>

lemma round_even_of_int [simp]: "round_even (of_int m) = m"
  by (simp add: round_even_def)

lemma round_even_error: "\<bar>of_int (round_even y) - y\<bar> \<le> 1 / 2"
proof -
  have "of_int \<lfloor>y\<rfloor> \<le> y" "y < of_int \<lfloor>y\<rfloor> + 1" by linarith+
  then show ?thesis
    by (auto simp: round_even_def Let_def abs_le_iff)
qed

lemma abs_scale:
  fixes a x q :: real
  assumes "0 < q"
  shows "\<bar>a - x / q\<bar> * q = \<bar>a * q - x\<bar>"
proof -
  have "a * q - x = (a - x / q) * q" using assms by (simp add: field_simps)
  then show ?thesis using assms by (simp add: abs_mult)
qed

lemma round_binary_error:
  "\<bar>round_binary p emin x - x\<bar> \<le> 2 powr of_int (ulp_exponent p emin x) / 2"
proof (cases "x = 0")
  case True
  then show ?thesis by (simp add: round_binary_def)
next
  case False
  let ?q = "2 powr of_int (ulp_exponent p emin x) :: real"
  have q: "0 < ?q" by simp
  have "\<bar>of_int (round_even (x / ?q)) - x / ?q\<bar> \<le> 1 / 2"
    by (rule round_even_error)
  then have "\<bar>of_int (round_even (x / ?q)) - x / ?q\<bar> * ?q \<le> 1 / 2 * ?q"
    using q by (intro mult_right_mono) simp_all
  moreover have "\<bar>of_int (round_even (x / ?q)) - x / ?q\<bar> * ?q =
      \<bar>of_int (round_even (x / ?q)) * ?q - x\<bar>"
    by (rule abs_scale [OF q])
  ultimately show ?thesis
    using False by (simp add: round_binary_def)
qed

lemma floor_log2_le: "0 < x \<Longrightarrow> 2 powr of_int \<lfloor>log 2 x\<rfloor> \<le> x"
  using floor_log_eq_powr_iff [of x 2 "\<lfloor>log 2 x\<rfloor>"] by simp

lemma floor_log2_less:
  "0 < x \<Longrightarrow> x < 2 powr of_int k \<Longrightarrow> \<lfloor>log 2 x\<rfloor> < k"
proof -
  assume x: "0 < x" and lt: "x < 2 powr of_int k"
  have "log 2 x < of_int k"
    using x lt by (simp add: log_less_iff)
  then show ?thesis by (simp add: floor_less_iff)
qed

lemma half_ulp_bound:
  assumes "x \<noteq> 0"
  shows "2 powr of_int (ulp_exponent p emin x) / 2 \<le>
           2 powr (- real p) * \<bar>x\<bar> + 2 powr (of_int emin - real p)"
proof (cases "emin \<le> \<lfloor>log 2 \<bar>x\<bar>\<rfloor>")
  case True
  then have u: "ulp_exponent p emin x = \<lfloor>log 2 \<bar>x\<bar>\<rfloor> - (int p - 1)"
    by (simp add: ulp_exponent_def max_def)
  have "2 powr of_int (ulp_exponent p emin x) / 2 =
        2 powr of_int \<lfloor>log 2 \<bar>x\<bar>\<rfloor> * 2 powr (- real p)"
    unfolding u by (simp add: powr_diff powr_add powr_minus field_simps)
  also have "\<dots> \<le> \<bar>x\<bar> * 2 powr (- real p)"
    using floor_log2_le [of "\<bar>x\<bar>"] assms by (intro mult_right_mono) simp_all
  finally show ?thesis
    by (simp add: mult.commute add_increasing2)
next
  case False
  then have u: "ulp_exponent p emin x = emin - (int p - 1)"
    by (simp add: ulp_exponent_def max_def)
  have "2 powr of_int (ulp_exponent p emin x) / 2 = 2 powr (of_int emin - real p)"
    unfolding u by (simp add: powr_diff powr_add powr_minus field_simps)
  then show ?thesis by (simp add: add_increasing)
qed

lemma round_binary_bound:
  "\<bar>round_binary p emin x - x\<bar> \<le> 2 powr (- real p) * \<bar>x\<bar> + 2 powr (of_int emin - real p)"
proof (cases "x = 0")
  case True
  then show ?thesis by (simp add: round_binary_def)
next
  case False
  from round_binary_error [of p emin x] half_ulp_bound [OF False, of p emin]
  show ?thesis by linarith
qed

lemma round_even_near:
  assumes "\<bar>y - of_int m\<bar> < 1 / 2"
  shows "round_even y = m"
proof -
  have b: "y - of_int m < 1 / 2" "of_int m - y < 1 / 2"
    using assms by linarith+
  have f: "\<lfloor>y\<rfloor> = m \<or> \<lfloor>y\<rfloor> = m - 1"
    using b by (auto simp: floor_eq_iff)
  then show ?thesis
  proof
    assume "\<lfloor>y\<rfloor> = m"
    then show ?thesis using b by (simp add: round_even_def Let_def)
  next
    assume "\<lfloor>y\<rfloor> = m - 1"
    then show ?thesis using b by (simp add: round_even_def Let_def)
  qed
qed

lemma ulp_exponent_normal:
  assumes "2 powr of_int k \<le> \<bar>x\<bar>" and "\<bar>x\<bar> < 2 powr of_int (k + 1)" and "emin \<le> k"
  shows "ulp_exponent p emin x = k - (int p - 1)"
proof -
  have "0 < \<bar>x\<bar>" using assms(1) by (smt (verit) powr_gt_zero)
  then have "\<lfloor>log 2 \<bar>x\<bar>\<rfloor> = k"
    using assms(1,2) by (simp add: floor_log_eq_powr_iff)
  then show ?thesis using assms(3) by (simp add: ulp_exponent_def)
qed

lemma ulp_exponent_subnormal:
  assumes "x \<noteq> 0" and "\<bar>x\<bar> < 2 powr of_int emin"
  shows "ulp_exponent p emin x = emin - (int p - 1)"
proof -
  have "\<lfloor>log 2 \<bar>x\<bar>\<rfloor> < emin"
    using assms by (intro floor_log2_less) simp_all
  then show ?thesis by (simp add: ulp_exponent_def)
qed

lemma round_binary_near:
  assumes "x \<noteq> 0" and "ulp_exponent p emin x = e"
    and "\<bar>x - of_int m * 2 powr of_int e\<bar> < 2 powr of_int e / 2"
  shows "round_binary p emin x = of_int m * 2 powr of_int e"
proof -
  let ?q = "2 powr of_int e :: real"
  have q: "0 < ?q" by simp
  have "\<bar>of_int m - x / ?q\<bar> * ?q = \<bar>of_int m * ?q - x\<bar>"
    by (rule abs_scale [OF q])
  also have "\<dots> < ?q / 2" using assms(3) by (simp add: abs_minus_commute)
  finally have "\<bar>of_int m - x / ?q\<bar> < 1 / 2" using q by (simp add: field_simps)
  then have "round_even (x / ?q) = m"
    by (intro round_even_near) (simp add: abs_minus_commute)
  then show ?thesis using assms(1,2) by (simp add: round_binary_def)
qed

lemma round_binary_exact:
  assumes x: "x = of_int m * 2 powr of_int k" and m: "\<bar>m\<bar> < 2 ^ p"
    and k: "emin - (int p - 1) \<le> k"
  shows "round_binary p emin x = x"
proof (cases "x = 0")
  case True
  then show ?thesis by (simp add: round_binary_def)
next
  case False
  define u where "u = ulp_exponent p emin x"
  have "\<bar>x\<bar> = of_int \<bar>m\<bar> * 2 powr of_int k" by (simp add: x abs_mult)
  also have "\<dots> < 2 ^ p * 2 powr of_int k"
    using m by (intro mult_strict_right_mono) (simp_all add: of_int_less_iff [symmetric, where 'a = real] del: of_int_less_iff)
  also have "\<dots> = 2 powr of_int (int p + k)"
    by (simp add: powr_add powr_realpow)
  finally have "\<lfloor>log 2 \<bar>x\<bar>\<rfloor> < int p + k"
    using False by (intro floor_log2_less) simp_all
  then have uk: "u \<le> k" using k by (simp add: u_def ulp_exponent_def)
  have "2 powr of_int k / 2 powr of_int u = (2::real) powr (of_int k - of_int u)"
    by (simp only: powr_diff)
  also have "of_int k - of_int u = real (nat (k - u))"
    using uk by simp
  also have "2 powr real (nat (k - u)) = (2::real) ^ nat (k - u)"
    by (simp only: powr_realpow zero_less_numeral)
  finally have "2 powr of_int k / 2 powr of_int u = (2::real) ^ nat (k - u)" .
  moreover have "x / 2 powr of_int u = of_int m * (2 powr of_int k / 2 powr of_int u)"
    by (simp add: x)
  ultimately have "x / 2 powr of_int u = of_int (m * 2 ^ nat (k - u))"
    by (simp only: of_int_mult of_int_power of_int_numeral)
  then have "round_even (x / 2 powr of_int u) = m * 2 ^ nat (k - u)"
    by (simp only: round_even_of_int)
  then have "round_binary p emin x = of_int (m * 2 ^ nat (k - u)) * 2 powr of_int u"
    using False by (simp add: round_binary_def u_def)
  also have "\<dots> = x / 2 powr of_int u * 2 powr of_int u"
    using \<open>x / 2 powr of_int u = of_int (m * 2 ^ nat (k - u))\<close> by simp
  finally show ?thesis by simp
qed

lemma to_double_Fin:
  "to_double (Fin x) =
     (if \<bar>round_binary 53 (- 1022) x\<bar> < 2 powr 1024 then Fin (round_binary 53 (- 1022) x)
      else js_inf (0 < x))"
  by (simp add: to_double_def to_format_def Let_def)

lemma to_float32_Fin:
  "to_float32 (Fin x) =
     (if \<bar>round_binary 24 (- 126) x\<bar> < 2 powr 128 then Fin (round_binary 24 (- 126) x)
      else js_inf (0 < x))"
  by (simp add: to_float32_def to_format_def Let_def)

lemma to_double_special [simp]:
  "to_double NaN = NaN" "to_double PInf = PInf" "to_double NInf = NInf"
  by (simp_all add: to_double_def to_format_def)

lemma to_float32_special [simp]:
  "to_float32 NaN = NaN" "to_float32 PInf = PInf" "to_float32 NInf = NInf"
  by (simp_all add: to_float32_def to_format_def)

lemma to_double_bound:
  assumes "\<bar>x\<bar> \<le> 2 powr 1023"
  shows "\<exists>r. to_double (Fin x) = Fin r \<and> \<bar>r - x\<bar> \<le> 2 powr (- 53) * \<bar>x\<bar> + 2 powr (- 1075)"
proof -
  let ?r = "round_binary 53 (- 1022) x"
  have b: "\<bar>?r - x\<bar> \<le> 2 powr (- 53) * \<bar>x\<bar> + 2 powr (- 1075)"
    using round_binary_bound [of 53 "- 1022" x] by simp
  have "2 powr (- 53) * \<bar>x\<bar> \<le> 2 powr (- 53) * 2 powr 1023"
    using assms by (intro mult_left_mono) simp_all
  then have "\<bar>?r\<bar> \<le> 2 powr 1023 + 2 powr (- 53) * 2 powr 1023 + 2 powr (- 1075)"
    using b assms by linarith
  also have "\<dots> < 2 powr 1024"
    by (simp add: powr_minus field_simps)
  finally show ?thesis using b by (simp add: to_double_Fin)
qed

lemma to_double_exact:
  assumes "x = of_int m * 2 powr of_int k" and "\<bar>m\<bar> < 2 ^ 53" and "- 1074 \<le> k"
    and "\<bar>x\<bar> < 2 powr 1024"
  shows "to_double (Fin x) = Fin x"
  using round_binary_exact [of x m k 53 "- 1022"] assms by (simp add: to_double_Fin)

lemma to_float32_exact:
  assumes "x = of_int m * 2 powr of_int k" and "\<bar>m\<bar> < 2 ^ 24" and "- 149 \<le> k"
    and "\<bar>x\<bar> < 2 powr 128"
  shows "to_float32 (Fin x) = Fin x"
  using round_binary_exact [of x m k 24 "- 126"] assms by (simp add: to_float32_Fin)

lemma to_double_int:
  "\<bar>n\<bar> < 2 ^ 53 \<Longrightarrow> to_double (Fin (of_int n)) = Fin (of_int n)"
proof -
  assume n: "\<bar>n\<bar> < 2 ^ 53"
  then have "\<bar>real_of_int n\<bar> < 2 ^ 53"
    by (metis of_int_abs of_int_less_iff of_int_numeral of_int_power)
  also have "\<dots> < 2 powr 1024" by simp
  finally show ?thesis
    using to_double_exact [of "of_int n" n 0] n by simp
qed

lemma to_double_ratio:
  assumes "\<bar>n\<bar> < 2 ^ 53" and "j \<le> 1074"
  shows "to_double (Fin (of_int n / 2 ^ j)) = Fin (of_int n / 2 ^ j)"
proof -
  have p: "2 powr of_int (- int j) = 1 / (2::real) ^ j"
    by (simp add: powr_minus powr_realpow divide_inverse)
  have "\<bar>real_of_int n\<bar> / 2 ^ j \<le> \<bar>real_of_int n\<bar> / 1"
    by (intro divide_left_mono) simp_all
  then have "\<bar>real_of_int n / 2 ^ j\<bar> \<le> \<bar>real_of_int n\<bar>"
    by simp
  also have "\<dots> < 2 ^ 53"
    using assms(1) by (metis of_int_abs of_int_less_iff of_int_numeral of_int_power)
  also have "\<dots> < 2 powr 1024" by simp
  finally have b: "\<bar>real_of_int n / 2 ^ j\<bar> < \<dots>" .
  have x: "real_of_int n / 2 ^ j = of_int n * 2 powr of_int (- int j)"
    by (simp only: p) simp
  have j: "- 1074 \<le> - int j" using assms(2) by simp
  show ?thesis by (rule to_double_exact [OF x assms(1) j b])
qed

lemma to_float32_ratio:
  assumes "\<bar>n\<bar> < 2 ^ 24" and "j \<le> 149"
  shows "to_float32 (Fin (of_int n / 2 ^ j)) = Fin (of_int n / 2 ^ j)"
proof -
  have p: "2 powr of_int (- int j) = 1 / (2::real) ^ j"
    by (simp add: powr_minus powr_realpow divide_inverse)
  have "\<bar>real_of_int n\<bar> / 2 ^ j \<le> \<bar>real_of_int n\<bar> / 1"
    by (intro divide_left_mono) simp_all
  then have "\<bar>real_of_int n / 2 ^ j\<bar> \<le> \<bar>real_of_int n\<bar>"
    by simp
  also have "\<dots> < 2 ^ 24"
    using assms(1) by (metis of_int_abs of_int_less_iff of_int_numeral of_int_power)
  also have "\<dots> < 2 powr 128" by simp
  finally have b: "\<bar>real_of_int n / 2 ^ j\<bar> < \<dots>" .
  have x: "real_of_int n / 2 ^ j = of_int n * 2 powr of_int (- int j)"
    by (simp only: p) simp
  have j: "- 149 \<le> - int j" using assms(2) by simp
  show ?thesis by (rule to_float32_exact [OF x assms(1) j b])
qed

section \<open>Properties of the note mapping\<close>


lemma frequencyToMidiNote_pos:
  "0 < f \<Longrightarrow> frequencyToMidiNote (Fin f) = Fin (of_int (round (69 + 12 * log 2 (f / 440))))"
  by (simp add: frequencyToMidiNote_def round_def)


lemma log2_bounds:
  fixes q :: real
  assumes "0 < q" and "1 / 2 ^ a \<le> q ^ n" and "q ^ n < 1 / 2 ^ b" and "0 < n"
  shows "- real a / real n \<le> log 2 q \<and> log 2 q < - real b / real n"
proof -
  have pw: "(2 powr (- real k / real n)) ^ n = 1 / 2 ^ k" for k
  proof -
    have "(2 powr (- real k / real n)) ^ n = 2 powr ((- real k / real n) * real n)"
      by (simp add: powr_power)
    also have "\<dots> = 2 powr (- real k)" using \<open>0 < n\<close> by simp
    also have "\<dots> = 1 / 2 ^ k" by (simp add: powr_minus powr_realpow divide_inverse)
    finally show ?thesis .
  qed
  have "(2 powr (- real a / real n)) ^ n \<le> q ^ n" unfolding pw by (rule assms(2))
  then have lo: "2 powr (- real a / real n) \<le> q"
    using assms(1,4) by (metis power_mono_iff less_imp_le powr_ge_zero)
  have "q ^ n < (2 powr (- real b / real n)) ^ n" unfolding pw by (rule assms(3))
  then have hi: "q < 2 powr (- real b / real n)"
    using assms(1,4) by (meson power_less_imp_less_base powr_ge_zero)
  show ?thesis
    using lo hi assms(1) by (simp add: le_log_iff log_less_iff)
qed

lemma log2_middle_C:
  "- 19 / 24 \<le> log 2 (261.63 / 440 :: real) \<and> log 2 (261.63 / 440 :: real) < - 17 / 24"
proof -
  have 1: "1 / 2 ^ 19 \<le> (261.63 / 440 :: real) ^ 24"
    by (simp add: power_divide)
  have 2: "(261.63 / 440 :: real) ^ 24 < 1 / 2 ^ 17"
    by (simp add: power_divide)
  show ?thesis
    using log2_bounds [of "261.63 / 440" 19 24 17, OF _ 1 2] by simp
qed

lemma frequencyToMidiNote_middle_C: "frequencyToMidiNote (Fin 261.63) = Fin 60"
proof -
  have "round (69 + 12 * log 2 (261.63 / 440 :: real)) = 60"
    using log2_middle_C unfolding round_def by (simp add: floor_eq_iff) 
  then show ?thesis by (simp add: frequencyToMidiNote_pos)
qed

lemma frequencyToMidiNote_concert_A: "frequencyToMidiNote (Fin 440) = Fin 69"
  by (simp add: frequencyToMidiNote_def)


section \<open>Properties of the note tracker\<close>


lemma sendNoteOn_null: "midiOutput c = None \<Longrightarrow> sendNoteOn c n v = c"
  by (simp add: sendNoteOn_def)

lemma sendNoteOff_null: "midiOutput c = None \<Longrightarrow> sendNoteOff c n = c"
  by (simp add: sendNoteOff_def)

lemma detect_fold_null:
  "midiOutput c = None \<Longrightarrow> snd (fold (detect_step thr) ps (dn, c)) = c"
  by (induction ps arbitrary: dn) (simp_all add: detect_step_def sendNoteOn_null Let_def)

lemma release_fold_null:
  "midiOutput c = None \<Longrightarrow> fold (release_step dn) L c = c"
  by (induction L) (simp_all add: release_step_def sendNoteOff_null)

lemma handleDetectedPitches_unfold:
  "handleDetectedPitches c ps thr =
     fold (release_step (fst (fold (detect_step thr) ps ([], c))))
       (activeNotes (snd (fold (detect_step thr) ps ([], c))))
       (snd (fold (detect_step thr) ps ([], c)))"
  by (simp add: handleDetectedPitches_def case_prod_beta)

lemma handleDetectedPitches_null:
  "midiOutput c = None \<Longrightarrow> handleDetectedPitches c ps thr = c"
  by (simp add: handleDetectedPitches_unfold detect_fold_null release_fold_null)

lemma detect_fold_fst:
  "set (fst (fold (detect_step thr) ps (dn, c))) = set dn \<union> set (candidateNotes ps thr)"
  by (induction ps arbitrary: dn c)
     (auto simp: detect_step_def candidateNotes_def Set_add_def Let_def)

lemma detect_fold_snd:
  assumes "midiOutput c = Some sent" and "distinct (activeNotes c)"
  shows "\<exists>ons. distinct ons \<and> set ons = set (candidateNotes ps thr) - set (activeNotes c) \<and>
           snd (fold (detect_step thr) ps (dn, c)) =
             c\<lparr>midiOutput := Some (sent @ map noteOn ons), activeNotes := activeNotes c @ ons\<rparr>"
  using assms
proof (induction ps arbitrary: dn c sent)
  case Nil
  then show ?case by (simp add: candidateNotes_def)
next
  case (Cons p ps)
  let ?n = "MIDIConverter_frequencyToMidiNote (freq p)"
  show ?case
  proof (cases "js_ge (probability p) thr \<and> ?n \<notin> set (activeNotes c)")
    case False
    then have step: "snd (detect_step thr p (dn, c)) = c"
      by (auto simp: detect_step_def Let_def sendNoteOn_def Set_has_def Cons.prems)
    have cand: "set (candidateNotes (p # ps) thr) - set (activeNotes c)
                = set (candidateNotes ps thr) - set (activeNotes c)"
      using False by (auto simp: candidateNotes_def)
    obtain dn' where "detect_step thr p (dn, c) = (dn', c)"
      using step by (cases "detect_step thr p (dn, c)") simp
    then show ?thesis
      using Cons.IH [OF Cons.prems, of dn'] cand by simp
  next
    case True
    let ?c = "c\<lparr>midiOutput := Some (sent @ [noteOn ?n]), activeNotes := activeNotes c @ [?n]\<rparr>"
    have step: "detect_step thr p (dn, c) = (Set_add dn ?n, ?c)"
      using True Cons.prems
      by (simp add: detect_step_def Let_def sendNoteOn_def Set_has_def Set_add_def noteOn_def)
    have "midiOutput ?c = Some (sent @ [noteOn ?n])" and "distinct (activeNotes ?c)"
      using True Cons.prems by simp_all
    from Cons.IH [OF this, of "Set_add dn ?n"]
    obtain ons where ons: "distinct ons"
      "set ons = set (candidateNotes ps thr) - set (activeNotes ?c)"
      "snd (fold (detect_step thr) ps (Set_add dn ?n, ?c)) =
         ?c\<lparr>midiOutput := Some ((sent @ [noteOn ?n]) @ map noteOn ons),
             activeNotes := activeNotes ?c @ ons\<rparr>"
      by blast
    have "distinct (?n # ons)" using ons by auto
    moreover have "set (?n # ons) = set (candidateNotes (p # ps) thr) - set (activeNotes c)"
      using ons True by (auto simp: candidateNotes_def)
    moreover have "snd (fold (detect_step thr) (p # ps) (dn, c)) =
        c\<lparr>midiOutput := Some (sent @ map noteOn (?n # ons)),
          activeNotes := activeNotes c @ (?n # ons)\<rparr>"
      using ons(3) step by simp
    ultimately show ?thesis by blast
  qed
qed

lemma release_fold:
  assumes "midiOutput c = Some sent" and "distinct L"
  shows "fold (release_step dn) L c =
           c\<lparr>midiOutput := Some (sent @ map noteOff
                  (filter (\<lambda>n. n \<notin> set dn \<and> n \<in> set (activeNotes c)) L)),
             activeNotes := filter (\<lambda>n. \<not> (n \<in> set L \<and> n \<notin> set dn)) (activeNotes c)\<rparr>"
  using assms
proof (induction L arbitrary: c sent)
  case Nil
  then show ?case by simp
next
  case (Cons a L)
  show ?case
  proof (cases "a \<notin> set dn \<and> a \<in> set (activeNotes c)")
    case False
    then have "release_step dn a c = c"
      by (auto simp: release_step_def sendNoteOff_def Set_has_def Cons.prems)
    moreover have "filter (\<lambda>n. \<not> (n \<in> set (a # L) \<and> n \<notin> set dn)) (activeNotes c)
        = filter (\<lambda>n. \<not> (n \<in> set L \<and> n \<notin> set dn)) (activeNotes c)"
      using False by (intro filter_cong) auto
    ultimately show ?thesis
      using Cons.IH [of c sent] Cons.prems False by auto
  next
    case True
    let ?c = "c\<lparr>midiOutput := Some (sent @ [noteOff a]),
                 activeNotes := Set_delete (activeNotes c) a\<rparr>"
    have step: "release_step dn a c = ?c"
      using True Cons.prems
      by (simp add: release_step_def sendNoteOff_def Set_has_def noteOff_def)
    have aL: "a \<notin> set L" and dL: "distinct L" using Cons.prems by auto
    have f1: "filter (\<lambda>n. n \<notin> set dn \<and> n \<in> set (activeNotes ?c)) L
            = filter (\<lambda>n. n \<notin> set dn \<and> n \<in> set (activeNotes c)) L"
      using aL by (intro filter_cong) (auto simp: Set_delete_def)
    have f2: "filter (\<lambda>n. \<not> (n \<in> set L \<and> n \<notin> set dn)) (activeNotes ?c)
            = filter (\<lambda>n. \<not> (n \<in> set (a # L) \<and> n \<notin> set dn)) (activeNotes c)"
      using True by (auto simp: Set_delete_def intro: filter_cong)
    have "fold (release_step dn) L ?c =
        ?c\<lparr>midiOutput := Some ((sent @ [noteOff a]) @ map noteOff
               (filter (\<lambda>n. n \<notin> set dn \<and> n \<in> set (activeNotes ?c)) L)),
           activeNotes := filter (\<lambda>n. \<not> (n \<in> set L \<and> n \<notin> set dn)) (activeNotes ?c)\<rparr>"
      by (rule Cons.IH) (simp_all add: dL)
    then show ?thesis
      using step True f1 f2 by simp
  qed
qed


lemma handleDetectedPitches_char:
  assumes out: "midiOutput c = Some sent" and dist: "distinct (activeNotes c)"
  shows "\<exists>ons. distinct ons \<and>
           set ons = set (candidateNotes ps thr) - set (activeNotes c) \<and>
           handleDetectedPitches c ps thr =
             c\<lparr>midiOutput := Some (sent @ map noteOn ons @ map noteOff
                    (filter (\<lambda>n. n \<notin> set (candidateNotes ps thr)) (activeNotes c))),
               activeNotes :=
                 filter (\<lambda>n. n \<in> set (candidateNotes ps thr)) (activeNotes c) @ ons\<rparr>"
proof -
  let ?r = "fold (detect_step thr) ps ([], c)"
  let ?cand = "set (candidateNotes ps thr)"
  have dn: "set (fst ?r) = ?cand"
    by (simp add: detect_fold_fst)
  obtain ons where ons: "distinct ons" "set ons = ?cand - set (activeNotes c)"
    "snd ?r = c\<lparr>midiOutput := Some (sent @ map noteOn ons),
                  activeNotes := activeNotes c @ ons\<rparr>"
    using detect_fold_snd [OF out dist, of ps thr "[]"] by blast
  let ?c1 = "snd ?r"
  have out1: "midiOutput ?c1 = Some (sent @ map noteOn ons)"
    and act1: "activeNotes ?c1 = activeNotes c @ ons"
    by (simp_all add: ons(3))
  have dist1: "distinct (activeNotes ?c1)"
    using ons(1,2) dist by (auto simp: act1)
  have offs: "filter (\<lambda>n. n \<notin> set (fst ?r) \<and> n \<in> set (activeNotes ?c1)) (activeNotes ?c1)
      = filter (\<lambda>n. n \<notin> ?cand) (activeNotes c)"
  proof -
    have "filter (\<lambda>n. n \<notin> ?cand) ons = []"
      using ons(2) by (auto simp: filter_empty_conv)
    moreover have "filter (\<lambda>n. n \<notin> set (fst ?r) \<and> n \<in> set (activeNotes ?c1)) (activeNotes ?c1)
        = filter (\<lambda>n. n \<notin> ?cand) (activeNotes ?c1)"
      by (intro filter_cong) (auto simp: dn)
    ultimately show ?thesis by (simp add: act1)
  qed
  have keep: "filter (\<lambda>n. \<not> (n \<in> set (activeNotes ?c1) \<and> n \<notin> set (fst ?r))) (activeNotes ?c1)
      = filter (\<lambda>n. n \<in> ?cand) (activeNotes c) @ ons"
  proof -
    have "filter (\<lambda>n. n \<in> ?cand) ons = ons"
      using ons(2) by (auto simp: filter_id_conv)
    moreover have "filter (\<lambda>n. \<not> (n \<in> set (activeNotes ?c1) \<and> n \<notin> set (fst ?r))) (activeNotes ?c1)
        = filter (\<lambda>n. n \<in> ?cand) (activeNotes ?c1)"
      by (intro filter_cong) (auto simp: dn)
    ultimately show ?thesis by (simp add: act1)
  qed
  have "handleDetectedPitches c ps thr =
      ?c1\<lparr>midiOutput := Some ((sent @ map noteOn ons) @ map noteOff
                (filter (\<lambda>n. n \<notin> ?cand) (activeNotes c))),
           activeNotes := filter (\<lambda>n. n \<in> ?cand) (activeNotes c) @ ons\<rparr>"
    unfolding handleDetectedPitches_unfold
    using release_fold [OF out1 dist1, of "fst ?r"] offs keep by simp
  then have "handleDetectedPitches c ps thr =
      c\<lparr>midiOutput := Some (sent @ map noteOn ons @ map noteOff
                (filter (\<lambda>n. n \<notin> ?cand) (activeNotes c))),
           activeNotes := filter (\<lambda>n. n \<in> ?cand) (activeNotes c) @ ons\<rparr>"
    by (simp add: ons(3))
  with ons(1,2) show ?thesis by blast
qed



lemma MIDIConverter_frequencyToMidiNote_eq:
  "MIDIConverter_frequencyToMidiNote f = frequencyToMidiNote f"
  by (simp add: MIDIConverter_frequencyToMidiNote_def frequencyToMidiNote_def)


text \<open>
  Claim C1. With a MIDI output present, one call of \<open>handleDetectedPitches\<close> appends to
  the messages sent a Note On (velocity 100) for each candidate note that was not active,
  once each, followed by a Note Off for each active note that is not a candidate, once
  each, and nothing else; afterwards the active notes are exactly the candidate notes,
  those of the pitches whose probability reached the threshold. In particular, from no
  active note a call whose only candidate is 60 sends exactly the Note On of 60, and a
  next call without candidates sends exactly the Note Off of 60.
\<close>

theorem handleDetectedPitches_diff:
  assumes out: "midiOutput c = Some sent" and dist: "distinct (activeNotes c)"
  shows "(\<exists>ons. distinct ons \<and>
            set ons = set (candidateNotes ps thr) - set (activeNotes c) \<and>
            midiOutput (handleDetectedPitches c ps thr) =
              Some (sent @ map noteOn ons @ map noteOff
                (filter (\<lambda>n. n \<notin> set (candidateNotes ps thr)) (activeNotes c)))) \<and>
         distinct (activeNotes (handleDetectedPitches c ps thr)) \<and>
         set (activeNotes (handleDetectedPitches c ps thr)) = set (candidateNotes ps thr) \<and>
         (activeNotes c = [] \<and> candidateNotes ps thr = [Fin 60] \<and> candidateNotes ps' thr' = []
            \<longrightarrow> midiOutput (handleDetectedPitches c ps thr) = Some (sent @ [noteOn (Fin 60)]) \<and>
                midiOutput (handleDetectedPitches (handleDetectedPitches c ps thr) ps' thr') =
                  Some (sent @ [noteOn (Fin 60), noteOff (Fin 60)]))"
proof -
  let ?c1 = "handleDetectedPitches c ps thr"
  let ?cand = "set (candidateNotes ps thr)"
  obtain ons where ons: "distinct ons" "set ons = ?cand - set (activeNotes c)"
    "?c1 = c\<lparr>midiOutput := Some (sent @ map noteOn ons @ map noteOff
                (filter (\<lambda>n. n \<notin> ?cand) (activeNotes c))),
             activeNotes := filter (\<lambda>n. n \<in> ?cand) (activeNotes c) @ ons\<rparr>"
    using handleDetectedPitches_char [OF out dist, of ps thr] by blast
  have out1: "midiOutput ?c1 = Some (sent @ map noteOn ons @ map noteOff
                (filter (\<lambda>n. n \<notin> ?cand) (activeNotes c)))"
    and act1: "activeNotes ?c1 = filter (\<lambda>n. n \<in> ?cand) (activeNotes c) @ ons"
    by (simp_all add: ons(3))
  have general: "\<exists>ons. distinct ons \<and> set ons = ?cand - set (activeNotes c) \<and>
      midiOutput ?c1 = Some (sent @ map noteOn ons @ map noteOff
        (filter (\<lambda>n. n \<notin> ?cand) (activeNotes c)))"
    using ons(1,2) out1 by blast
  have dist1: "distinct (activeNotes ?c1)"
    using ons(1,2) dist by (auto simp: act1)
  have set1: "set (activeNotes ?c1) = ?cand"
    using ons(2) by (auto simp: act1)
  have scenario: "midiOutput ?c1 = Some (sent @ [noteOn (Fin 60)]) \<and>
      midiOutput (handleDetectedPitches ?c1 ps' thr') =
        Some (sent @ [noteOn (Fin 60), noteOff (Fin 60)])"
    if e: "activeNotes c = []" "candidateNotes ps thr = [Fin 60]" "candidateNotes ps' thr' = []"
  proof -
    have "set ons = {Fin 60}" using ons(2) e by simp
    with ons(1) have o: "ons = [Fin 60]"
      by (cases ons) (auto simp: insert_eq_iff dest: subset_singletonD)
    have o1: "midiOutput ?c1 = Some (sent @ [noteOn (Fin 60)])"
      and a1: "activeNotes ?c1 = [Fin 60]"
      using out1 act1 by (simp_all add: o e)
    obtain ons' where ons': "set ons' = set (candidateNotes ps' thr') - set (activeNotes ?c1)"
      "handleDetectedPitches ?c1 ps' thr' =
         ?c1\<lparr>midiOutput := Some ((sent @ [noteOn (Fin 60)]) @ map noteOn ons' @ map noteOff
                (filter (\<lambda>n. n \<notin> set (candidateNotes ps' thr')) (activeNotes ?c1))),
             activeNotes := filter (\<lambda>n. n \<in> set (candidateNotes ps' thr')) (activeNotes ?c1) @ ons'\<rparr>"
      using handleDetectedPitches_char [OF o1 dist1, of ps' thr'] by blast
    have "ons' = []" using ons'(1) e by simp
    then have "midiOutput (handleDetectedPitches ?c1 ps' thr') =
        Some (sent @ [noteOn (Fin 60), noteOff (Fin 60)])"
      by (simp add: ons'(2) a1 e)
    with o1 show ?thesis by simp
  qed
  show ?thesis
    using general dist1 set1 scenario by blast
qed

theorem handleDetectedPitches_diff_witness:
  "midiOutput \<lparr>midiOutput = Some [], activeNotes = []\<rparr> = Some [] \<and>
   distinct (activeNotes \<lparr>midiOutput = Some [], activeNotes = []\<rparr>) \<and>
   candidateNotes [\<lparr>freq = Fin 261.63, probability = Fin 1\<rparr>] (Fin 0.8) = [Fin 60] \<and>
   candidateNotes [] (Fin 0.8) = [] \<and>
   midiOutput (handleDetectedPitches \<lparr>midiOutput = Some [], activeNotes = []\<rparr>
       [\<lparr>freq = Fin 261.63, probability = Fin 1\<rparr>] (Fin 0.8)) = Some [noteOn (Fin 60)] \<and>
   midiOutput (handleDetectedPitches
       (handleDetectedPitches \<lparr>midiOutput = Some [], activeNotes = []\<rparr>
          [\<lparr>freq = Fin 261.63, probability = Fin 1\<rparr>] (Fin 0.8)) [] (Fin 0.8)) =
     Some [noteOn (Fin 60), noteOff (Fin 60)]"
  using handleDetectedPitches_diff [of "\<lparr>midiOutput = Some [], activeNotes = []\<rparr>" "[]"
      "[\<lparr>freq = Fin 261.63, probability = Fin 1\<rparr>]" "Fin 0.8" "[]" "Fin 0.8"]
    frequencyToMidiNote_middle_C
  by (simp add: candidateNotes_def MIDIConverter_frequencyToMidiNote_eq)

text \<open>
  Claim C5. With a MIDI output present and from any set of active notes, a call of
  \<open>handleDetectedPitches\<close> that follows a call with the same set of candidate notes sends
  no message and changes nothing.
\<close>

theorem handleDetectedPitches_idempotent:
  assumes out: "midiOutput c = Some sent" and dist: "distinct (activeNotes c)"
    and same: "set (candidateNotes ps' thr') = set (candidateNotes ps thr)"
  shows "midiOutput (handleDetectedPitches (handleDetectedPitches c ps thr) ps' thr') =
           midiOutput (handleDetectedPitches c ps thr) \<and>
         handleDetectedPitches (handleDetectedPitches c ps thr) ps' thr' =
           handleDetectedPitches c ps thr"
proof -
  let ?c1 = "handleDetectedPitches c ps thr"
  let ?cand = "set (candidateNotes ps thr)"
  obtain ons where ons: "distinct ons" "set ons = ?cand - set (activeNotes c)"
    "?c1 = c\<lparr>midiOutput := Some (sent @ map noteOn ons @ map noteOff
                (filter (\<lambda>n. n \<notin> ?cand) (activeNotes c))),
             activeNotes := filter (\<lambda>n. n \<in> ?cand) (activeNotes c) @ ons\<rparr>"
    using handleDetectedPitches_char [OF out dist, of ps thr] by blast
  let ?sent1 = "sent @ map noteOn ons @ map noteOff (filter (\<lambda>n. n \<notin> ?cand) (activeNotes c))"
  have out1: "midiOutput ?c1 = Some ?sent1"
    and act1: "activeNotes ?c1 = filter (\<lambda>n. n \<in> ?cand) (activeNotes c) @ ons"
    by (simp_all add: ons(3))
  have dist1: "distinct (activeNotes ?c1)"
    using ons(1,2) dist by (auto simp: act1)
  have set1: "set (activeNotes ?c1) = ?cand"
    using ons(2) by (auto simp: act1)
  obtain ons' where ons': "set ons' = set (candidateNotes ps' thr') - set (activeNotes ?c1)"
    "handleDetectedPitches ?c1 ps' thr' =
       ?c1\<lparr>midiOutput := Some (?sent1 @ map noteOn ons' @ map noteOff
              (filter (\<lambda>n. n \<notin> set (candidateNotes ps' thr')) (activeNotes ?c1))),
           activeNotes := filter (\<lambda>n. n \<in> set (candidateNotes ps' thr')) (activeNotes ?c1) @ ons'\<rparr>"
    using handleDetectedPitches_char [OF out1 dist1, of ps' thr'] by blast
  have "ons' = []" using ons'(1) same set1 by simp
  moreover have "filter (\<lambda>n. n \<notin> set (candidateNotes ps' thr')) (activeNotes ?c1) = []"
    using same set1 by (auto simp: filter_empty_conv)
  moreover have "filter (\<lambda>n. n \<in> set (candidateNotes ps' thr')) (activeNotes ?c1) = activeNotes ?c1"
    using same set1 by (auto simp: filter_id_conv)
  ultimately have "handleDetectedPitches ?c1 ps' thr' =
      ?c1\<lparr>midiOutput := Some ?sent1, activeNotes := activeNotes ?c1\<rparr>"
    using ons'(2) by simp
  also have "\<dots> = ?c1" using out1 by (cases ?c1) simp
  finally show ?thesis by simp
qed

theorem handleDetectedPitches_idempotent_witness:
  "midiOutput \<lparr>midiOutput = Some [], activeNotes = [Fin 72]\<rparr> = Some [] \<and>
   distinct (activeNotes \<lparr>midiOutput = Some [], activeNotes = [Fin 72]\<rparr>) \<and>
   set (candidateNotes [\<lparr>freq = Fin 440, probability = Fin 0.9\<rparr>,
                        \<lparr>freq = Fin 440, probability = Fin 1\<rparr>] (Fin 0.8)) =
   set (candidateNotes [\<lparr>freq = Fin 440, probability = Fin 1\<rparr>] (Fin 0.8)) \<and>
   midiOutput (handleDetectedPitches \<lparr>midiOutput = Some [], activeNotes = [Fin 72]\<rparr>
          [\<lparr>freq = Fin 440, probability = Fin 1\<rparr>] (Fin 0.8)) =
     Some [noteOn (Fin 69), noteOff (Fin 72)] \<and>
   midiOutput (handleDetectedPitches
       (handleDetectedPitches \<lparr>midiOutput = Some [], activeNotes = [Fin 72]\<rparr>
          [\<lparr>freq = Fin 440, probability = Fin 1\<rparr>] (Fin 0.8))
       [\<lparr>freq = Fin 440, probability = Fin 0.9\<rparr>, \<lparr>freq = Fin 440, probability = Fin 1\<rparr>]
       (Fin 0.8)) =
     Some [noteOn (Fin 69), noteOff (Fin 72)]"
  using handleDetectedPitches_idempotent [of "\<lparr>midiOutput = Some [], activeNotes = [Fin 72]\<rparr>" "[]"
      "[\<lparr>freq = Fin 440, probability = Fin 0.9\<rparr>, \<lparr>freq = Fin 440, probability = Fin 1\<rparr>]" "Fin 0.8"
      "[\<lparr>freq = Fin 440, probability = Fin 1\<rparr>]" "Fin 0.8"]
  by (simp add: candidateNotes_def MIDIConverter_frequencyToMidiNote_eq
      frequencyToMidiNote_concert_A handleDetectedPitches_def detect_step_def release_step_def
      sendNoteOn_def sendNoteOff_def Set_has_def Set_add_def Set_delete_def noteOn_def noteOff_def
      Let_def)

text \<open>
  Claim C10. Without a MIDI output (\<open>midiOutput\<close> is null), \<open>handleDetectedPitches\<close>,
  \<open>sendNoteOn\<close> and \<open>sendNoteOff\<close> return the converter as it was: nothing is sent and
  the active notes do not change.
\<close>

theorem no_output_no_tracking:
  "midiOutput c = None \<Longrightarrow>
     handleDetectedPitches c ps thr = c \<and> sendNoteOn c n v = c \<and> sendNoteOff c m = c"
  by (simp add: handleDetectedPitches_null sendNoteOn_null sendNoteOff_null)

theorem no_output_no_tracking_witness:
  "midiOutput \<lparr>midiOutput = None, activeNotes = [Fin 72]\<rparr> = None \<and>
   handleDetectedPitches \<lparr>midiOutput = None, activeNotes = [Fin 72]\<rparr>
       [\<lparr>freq = Fin 440, probability = Fin 1\<rparr>] (Fin 0.8) =
     \<lparr>midiOutput = None, activeNotes = [Fin 72]\<rparr> \<and>
   sendNoteOn \<lparr>midiOutput = None, activeNotes = [Fin 72]\<rparr> (Fin 69) (Fin 100) =
     \<lparr>midiOutput = None, activeNotes = [Fin 72]\<rparr> \<and>
   sendNoteOff \<lparr>midiOutput = None, activeNotes = [Fin 72]\<rparr> (Fin 72) =
     \<lparr>midiOutput = None, activeNotes = [Fin 72]\<rparr>"
  using no_output_no_tracking [of "\<lparr>midiOutput = None, activeNotes = [Fin 72]\<rparr>"
      "[\<lparr>freq = Fin 440, probability = Fin 1\<rparr>]" "Fin 0.8" "Fin 69" "Fin 100" "Fin 72"]
  by simp





section \<open>Properties of the pitch estimator\<close>

lemma ta_get_in [simp]: "i < length a \<Longrightarrow> ta_get a (int i) = Some (a ! i)"
  by (simp add: ta_get_def)

lemma ta_get_in_add [simp]:
  "i + j < length a \<Longrightarrow> ta_get a (int i + int j) = Some (a ! (i + j))"
  using ta_get_in [of "i + j" a] by (simp del: ta_get_in)

lemma ta_get_out [simp]: "length a \<le> i \<Longrightarrow> ta_get a (int i) = None"
  by (simp add: ta_get_def)

lemma ToNumber_simps [simp]: "ToNumber (Some x) = x" "ToNumber None = NaN"
  by (simp_all add: ToNumber_def)

lemma length_ta_set [simp]: "length (ta_set a i v) = length a"
  by (simp add: ta_set_def)

lemma zero_loop:
  "n \<le> length yb \<Longrightarrow>
     fold (\<lambda>tau yb. ta_set yb tau v) [0..<n] yb =
       map (\<lambda>i. if i < n then v else yb ! i) [0..<length yb]"
proof (induction n)
  case 0
  then show ?case by (simp add: map_nth)
next
  case (Suc n)
  then show ?case
    by (auto simp: ta_set_def intro!: nth_equalityI simp: nth_list_update less_Suc_eq)
qed

lemma zero_loop_all:
  "fold (\<lambda>tau yb. ta_set yb tau v) [0..<length yb] yb = replicate (length yb) v"
  by (auto simp: zero_loop intro!: nth_equalityI)

lemma difference_step_alt:
  "difference_step buffer tau i yb =
     ta_set yb tau (js_add (ToNumber (ta_get yb (int tau))) (delta_squared buffer tau i))"
  by (simp add: difference_step_def delta_squared_def Let_def)

lemma inner_loop:
  "tau < length yb \<Longrightarrow>
     fold (difference_step buffer tau) [0..<m] yb =
       yb[tau := fold (\<lambda>i acc. js_add acc (delta_squared buffer tau i)) [0..<m] (yb ! tau)]"
  by (induction m) (simp_all add: difference_step_alt ta_set_def)

lemma outer_loop:
  "k \<le> n \<Longrightarrow>
     fold (\<lambda>tau yb. fold (difference_step buffer tau) [0..<n] yb) [1..<k] (replicate n (Fin 0)) =
       map (\<lambda>tau. if 1 \<le> tau \<and> tau < k then difference_sum buffer n tau else Fin 0) [0..<n]"
proof (induction k)
  case 0
  then show ?case by (auto intro!: nth_equalityI)
next
  case (Suc k)
  show ?case
  proof (cases "k = 0")
    case True
    then show ?thesis by (auto intro!: nth_equalityI)
  next
    case False
    then have upt: "[1..<Suc k] = [1..<k] @ [k]" by simp
    have kn: "k < n" "k \<le> n" using Suc.prems by simp_all
    show ?thesis
      unfolding upt fold_append comp_def Suc.IH [OF kn(2)]
      using False kn(1)
      by (auto simp: inner_loop difference_sum_def intro!: nth_equalityI simp: nth_list_update)
  qed
qed

lemma difference_yinBuffer:
  "yinBuffer (difference s buffer) =
     map (\<lambda>tau. if tau = 0 then Fin 0 else difference_sum buffer (length (yinBuffer s)) tau)
       [0..<length (yinBuffer s)]"
proof -
  have "map (\<lambda>tau. if 1 \<le> tau \<and> tau < length (yinBuffer s)
               then difference_sum buffer (length (yinBuffer s)) tau else Fin 0)
          [0..<length (yinBuffer s)] =
        map (\<lambda>tau. if tau = 0 then Fin 0
               else difference_sum buffer (length (yinBuffer s)) tau)
          [0..<length (yinBuffer s)]"
    by (intro map_cong) auto
  then show ?thesis
    using outer_loop [of "length (yinBuffer s)" "length (yinBuffer s)" buffer]
    by (simp add: difference_def Let_def zero_loop_all)
qed

lemma fold_js_add_Fin:
  "fold (\<lambda>i acc. js_add acc (Fin (f i))) [0..<m] (Fin a) = Fin (a + (\<Sum>i<m. f i))"
  by (induction m) simp_all

lemma delta_squared_Fin:
  "i + tau < length xs \<Longrightarrow>
     delta_squared (map Fin xs) tau i = Fin ((xs ! i - xs ! (i + tau))\<^sup>2)"
  by (simp add: delta_squared_def js_sub_def power2_eq_square)

lemma difference_sum_Fin:
  assumes "n + tau \<le> length xs"
  shows "difference_sum (map Fin xs) n tau = Fin (\<Sum>i<n. (xs ! i - xs ! (i + tau))\<^sup>2)"
proof -
  have "fold (\<lambda>i acc. js_add acc (delta_squared (map Fin xs) tau i)) [0..<n] (Fin 0) =
        fold (\<lambda>i acc. js_add acc (Fin ((xs ! i - xs ! (i + tau))\<^sup>2))) [0..<n] (Fin 0)"
    using assms by (intro fold_cong) (auto simp: delta_squared_Fin)
  then show ?thesis by (simp add: difference_sum_def fold_js_add_Fin)
qed


lemma ta_set_eq: "ta_set a i v = a[i := v]"
  by (simp add: ta_set_def list_update_beyond)



lemma cmnd_step_Fin:
  "k < length yb \<Longrightarrow> yb ! k = Fin d \<Longrightarrow>
     cmnd_step k (Fin S, yb) =
       (Fin (S + d), yb[k := js_mul (Fin d) (js_div (Fin (real k)) (Fin (S + d)))])"
  by (simp add: cmnd_step_def Let_def ta_set_eq del: js_div.simps js_mul.simps)

lemma cmnd_loop:
  assumes "k \<le> length ds"
  shows "fold cmnd_step [1..<k] (Fin 0, (map Fin ds)[0 := Fin 1]) =
           (Fin (\<Sum>j\<in>{1..<k}. ds ! j),
            map (\<lambda>tau. if tau = 0 then Fin 1
                       else if tau < k
                         then js_mul (Fin (ds ! tau))
                                (js_div (Fin (real tau)) (Fin (\<Sum>j\<in>{1..tau}. ds ! j)))
                         else Fin (ds ! tau))
              [0..<length ds])"
  using assms
proof (induction k)
  case 0
  have "(map Fin ds)[0 := Fin 1] =
        map (\<lambda>tau. if tau = 0 then Fin 1 else Fin (ds ! tau)) [0..<length ds]"
    by (intro nth_equalityI) (auto simp: nth_list_update)
  then show ?case by simp
next
  case (Suc k)
  let ?d' = "\<lambda>tau. js_mul (Fin (ds ! tau))
                  (js_div (Fin (real tau)) (Fin (\<Sum>j\<in>{1..tau}. ds ! j)))"
  let ?yb = "\<lambda>k. map (\<lambda>tau. if tau = 0 then Fin 1 else if tau < k then ?d' tau
                             else Fin (ds ! tau)) [0..<length ds]"
  show ?case
  proof (cases "k = 0")
    case True
    have "(map Fin ds)[0 := Fin 1] =
          map (\<lambda>tau. if tau = 0 then Fin 1 else Fin (ds ! tau)) [0..<length ds]"
      by (intro nth_equalityI) (auto simp: nth_list_update)
    then show ?thesis using True by (simp cong: if_cong)
  next
    case False
    then have upt: "[1..<Suc k] = [1..<k] @ [k]" by simp
    have kn: "k < length ds" "k \<le> length ds" using Suc.prems by simp_all
    have set_eq: "{1..<Suc k} = insert k {1..<k}" "{1..k} = insert k {1..<k}"
      using False by auto
    have sum1: "(\<Sum>j\<in>{1..<Suc k}. ds ! j) = (\<Sum>j\<in>{1..<k}. ds ! j) + ds ! k"
      unfolding set_eq by simp
    have sum2: "(\<Sum>j\<in>{1..k}. ds ! j) = (\<Sum>j\<in>{1..<k}. ds ! j) + ds ! k"
      unfolding set_eq by simp
    have at_k: "?yb k ! k = Fin (ds ! k)" "k < length (?yb k)"
      using False kn by simp_all
    have step: "cmnd_step k (Fin (\<Sum>j\<in>{1..<k}. ds ! j), ?yb k) =
        (Fin ((\<Sum>j\<in>{1..<k}. ds ! j) + ds ! k),
         (?yb k)[k := js_mul (Fin (ds ! k))
             (js_div (Fin (real k)) (Fin ((\<Sum>j\<in>{1..<k}. ds ! j) + ds ! k)))])"
      by (rule cmnd_step_Fin [OF at_k(2) at_k(1)])
    have upd: "(?yb k)[k := ?d' k] = ?yb (Suc k)"
      using False kn
      by (intro nth_equalityI) (auto simp: nth_list_update less_Suc_eq simp del: js_div.simps js_mul.simps)
    have "fold cmnd_step [1..<Suc k] (Fin 0, (map Fin ds)[0 := Fin 1]) =
          cmnd_step k (Fin (\<Sum>j\<in>{1..<k}. ds ! j), ?yb k)"
      unfolding upt fold_append comp_def Suc.IH [OF kn(2)] by simp
    also have "\<dots> = (Fin (\<Sum>j\<in>{1..<Suc k}. ds ! j), (?yb k)[k := ?d' k])"
      unfolding step sum1 sum2 ..
    finally show ?thesis unfolding upd .
  qed
qed

lemma cmnd_yinBuffer:
  assumes "yinBuffer s = map Fin ds"
  shows "yinBuffer (cumulativeMeanNormalizedDifference s) =
           map (\<lambda>tau. if tau = 0 then Fin 1
                      else js_mul (Fin (ds ! tau))
                             (js_div (Fin (real tau)) (Fin (\<Sum>j\<in>{1..tau}. ds ! j))))
             [0..<length ds]"
proof -
  have "snd (fold cmnd_step [1..<length ds] (Fin 0, (map Fin ds)[0 := Fin 1])) =
        map (\<lambda>tau. if tau = 0 then Fin 1
                      else js_mul (Fin (ds ! tau))
                             (js_div (Fin (real tau)) (Fin (\<Sum>j\<in>{1..tau}. ds ! j))))
             [0..<length ds]"
    unfolding cmnd_loop [OF order_refl]
    by (intro nth_equalityI) (auto simp del: js_div.simps js_mul.simps)
  then show ?thesis
    by (simp add: cumulativeMeanNormalizedDifference_def Let_def ta_set_eq assms
        del: js_div.simps js_mul.simps)
qed



lemma descend_ge: "tau \<le> absoluteThreshold_descend yb tau"
  by (induction yb tau rule: absoluteThreshold_descend.induct)
     (subst absoluteThreshold_descend.simps, auto)

lemma descend_lt:
  "tau < length yb \<Longrightarrow> absoluteThreshold_descend yb tau < length yb"
  by (induction yb tau rule: absoluteThreshold_descend.induct)
     (subst absoluteThreshold_descend.simps, auto)

lemma scan_range:
  "absoluteThreshold_scan yb t \<noteq> - 1 \<Longrightarrow>
     int t \<le> absoluteThreshold_scan yb t \<and> absoluteThreshold_scan yb t < int (length yb)"
proof (induction yb t rule: absoluteThreshold_scan.induct)
  case (1 yb tau)
  show ?case
  proof (cases "tau < length yb")
    case False
    with "1.prems" show ?thesis by (subst (asm) absoluteThreshold_scan.simps) simp
  next
    case True
    show ?thesis
    proof (cases "js_lt (ToNumber (ta_get yb (int tau))) YIN_THRESHOLD")
      case hit: True
      then have "absoluteThreshold_scan yb tau = int (absoluteThreshold_descend yb tau)"
        using True by (subst absoluteThreshold_scan.simps) simp
      then show ?thesis
        using descend_ge [of tau yb] descend_lt [OF True] by simp
    next
      case miss: False
      then have eq: "absoluteThreshold_scan yb tau = absoluteThreshold_scan yb (tau + 1)"
        using True by (subst absoluteThreshold_scan.simps) simp
      then show ?thesis
        using "1.IH" [OF True miss] "1.prems" by simp
    qed
  qed
qed

lemma scan_skip:
  assumes "\<And>tau. a \<le> tau \<Longrightarrow> tau < b \<Longrightarrow> \<not> js_lt (yb ! tau) YIN_THRESHOLD"
    and "a \<le> b" and "b \<le> length yb"
  shows "absoluteThreshold_scan yb a = absoluteThreshold_scan yb b"
  using assms
proof (induction "b - a" arbitrary: a)
  case 0
  then show ?case by simp
next
  case (Suc d)
  then have a: "a < b" "a < length yb" by simp_all
  have "absoluteThreshold_scan yb a = absoluteThreshold_scan yb (a + 1)"
    using Suc.prems(1) [of a] a by (subst absoluteThreshold_scan.simps) simp
  also have "\<dots> = absoluteThreshold_scan yb b"
    using Suc.hyps(2) Suc.prems a by (intro Suc.hyps(1)) auto
  finally show ?case .
qed

lemma scan_end: "length yb \<le> t \<Longrightarrow> absoluteThreshold_scan yb t = - 1"
  by (subst absoluteThreshold_scan.simps) simp

lemma silent_difference:
  assumes "2 * length (yinBuffer s) \<le> n"
  shows "yinBuffer (difference s (replicate n (Fin 0))) = map Fin (replicate (length (yinBuffer s)) 0)"
proof -
  have "difference_sum (replicate n (Fin 0)) (length (yinBuffer s)) tau = Fin 0"
    if "tau < length (yinBuffer s)" for tau
    using difference_sum_Fin [of "length (yinBuffer s)" tau "replicate n 0"] that assms
    by simp
  then show ?thesis
    by (auto simp: difference_yinBuffer intro!: nth_equalityI)
qed

lemma silent_cmnd:
  assumes "2 * length (yinBuffer s) \<le> n"
  shows "yinBuffer (cumulativeMeanNormalizedDifference (difference s (replicate n (Fin 0)))) =
           (replicate (length (yinBuffer s)) NaN)[0 := Fin 1]"
proof -
  let ?h = "length (yinBuffer s)"
  have S: "(\<Sum>j\<in>{1..tau}. replicate ?h (0::real) ! j) = 0" if "tau < ?h" for tau
    using that by (intro sum.neutral) auto
  have "map (\<lambda>tau. if tau = 0 then Fin 1
               else js_mul (Fin (replicate ?h 0 ! tau))
                      (js_div (Fin (real tau)) (Fin (\<Sum>j\<in>{1..tau}. replicate ?h 0 ! j))))
          [0..<length (replicate ?h (0::real))] = (replicate ?h NaN)[0 := Fin 1]"
  proof (rule nth_equalityI)
    show "length (map (\<lambda>tau. if tau = 0 then Fin 1
               else js_mul (Fin (replicate ?h 0 ! tau))
                      (js_div (Fin (real tau)) (Fin (\<Sum>j\<in>{1..tau}. replicate ?h 0 ! j))))
          [0..<length (replicate ?h (0::real))]) = length ((replicate ?h NaN)[0 := Fin 1])"
      by simp
  next
    fix i
    assume "i < length (map (\<lambda>tau. if tau = 0 then Fin 1
               else js_mul (Fin (replicate ?h 0 ! tau))
                      (js_div (Fin (real tau)) (Fin (\<Sum>j\<in>{1..tau}. replicate ?h 0 ! j))))
          [0..<length (replicate ?h (0::real))])"
    then have i: "i < ?h" by simp
    show "map (\<lambda>tau. if tau = 0 then Fin 1
               else js_mul (Fin (replicate ?h 0 ! tau))
                      (js_div (Fin (real tau)) (Fin (\<Sum>j\<in>{1..tau}. replicate ?h 0 ! j))))
          [0..<length (replicate ?h (0::real))] ! i = (replicate ?h NaN)[0 := Fin 1] ! i"
      using i by (cases "i = 0") (simp_all add: S [OF i] nth_list_update)
  qed
  then show ?thesis
    using cmnd_yinBuffer [OF silent_difference [OF assms]] by simp
qed

lemma silent_threshold:
  assumes "2 * length (yinBuffer s) \<le> n"
  shows "absoluteThreshold (cumulativeMeanNormalizedDifference (difference s (replicate n (Fin 0)))) = - 1"
proof -
  let ?yb = "(replicate (length (yinBuffer s)) NaN)[0 := Fin 1]"
  show ?thesis
  proof (cases "length (yinBuffer s) = 0")
    case True
    then show ?thesis
      by (simp add: absoluteThreshold_def scan_end silent_cmnd [OF assms])
  next
    case False
    have "absoluteThreshold_scan ?yb 1 = absoluteThreshold_scan ?yb (length ?yb)"
    proof (rule scan_skip)
      fix tau
      assume "1 \<le> tau" and "tau < length ?yb"
      then have "?yb ! tau = NaN" by (simp add: nth_list_update)
      then show "\<not> js_lt (?yb ! tau) YIN_THRESHOLD" by simp
    next
      show "1 \<le> length ?yb" using False by (simp add: Suc_leI)
    next
      show "length ?yb \<le> length ?yb" by simp
    qed
    then show ?thesis
      using scan_end [of ?yb "length ?yb"] by (simp add: absoluteThreshold_def silent_cmnd [OF assms])
  qed
qed



lemma silent_detectPitch:
  assumes "2 * length (yinBuffer s) \<le> n"
  shows "detectPitch s (replicate n (Fin 0)) =
           (s\<lparr>yinBuffer := (replicate (length (yinBuffer s)) NaN)[0 := Fin 1]\<rparr>, None)"
proof -
  let ?s1 = "cumulativeMeanNormalizedDifference (difference s (replicate n (Fin 0)))"
  have "?s1 = s\<lparr>yinBuffer := yinBuffer ?s1\<rparr>"
    by (simp add: cumulativeMeanNormalizedDifference_def difference_def Let_def)
  then have "?s1 = s\<lparr>yinBuffer := (replicate (length (yinBuffer s)) NaN)[0 := Fin 1]\<rparr>"
    by (simp only: silent_cmnd [OF assms])
  then show ?thesis
    using silent_threshold [OF assms] by (simp add: detectPitch_def Let_def)
qed

lemma audioBuffer_detectPitch [simp]:
  "audioBuffer (fst (detectPitch s buffer)) = audioBuffer s"
  by (simp add: detectPitch_def Let_def cumulativeMeanNormalizedDifference_def difference_def)

lemma new_lengths:
  "length (audioBuffer AudioProcessor_new) = BUFFER_SIZE"
  "length (yinBuffer AudioProcessor_new) = BUFFER_SIZE div 2"
  by (simp_all add: AudioProcessor_new_def)

text \<open>
  The rounded difference function: its loops, and the frames on which no operation
  rounds.
\<close>

lemma round_binary_zero [simp]: "round_binary p emin 0 = 0"
  by (simp add: round_binary_def)

lemma to_double_zero [simp]: "to_double (Fin 0) = Fin 0"
  by (simp add: to_double_Fin)

lemma to_float32_zero [simp]: "to_float32 (Fin 0) = Fin 0"
  by (simp add: to_float32_Fin)

lemma difference_step_f32_alt:
  "difference_step_f32 buffer tau i yb =
     ta_set yb tau
       (to_float32 (d_add (ToNumber (ta_get yb (int tau))) (delta_squared_f64 buffer tau i)))"
  by (simp add: difference_step_f32_def delta_squared_f64_def f32_set_def Let_def)

lemma inner_loop_f32:
  "tau < length yb \<Longrightarrow>
     fold (difference_step_f32 buffer tau) [0..<m] yb =
       yb[tau := fold (\<lambda>i acc. to_float32 (d_add acc (delta_squared_f64 buffer tau i)))
                   [0..<m] (yb ! tau)]"
  by (induction m) (simp_all add: difference_step_f32_alt ta_set_def)

lemma outer_loop_f32:
  "k \<le> n \<Longrightarrow>
     fold (\<lambda>tau yb. fold (difference_step_f32 buffer tau) [0..<n] yb) [1..<k]
        (replicate n (Fin 0)) =
       map (\<lambda>tau. if 1 \<le> tau \<and> tau < k then difference_sum_f32 buffer n tau else Fin 0) [0..<n]"
proof (induction k)
  case 0
  then show ?case by (auto intro!: nth_equalityI)
next
  case (Suc k)
  show ?case
  proof (cases "k = 0")
    case True
    then show ?thesis by (auto intro!: nth_equalityI)
  next
    case False
    then have upt: "[1..<Suc k] = [1..<k] @ [k]" by simp
    have kn: "k < n" "k \<le> n" using Suc.prems by simp_all
    show ?thesis
      unfolding upt fold_append comp_def Suc.IH [OF kn(2)]
      using False kn(1)
      by (auto simp: inner_loop_f32 difference_sum_f32_def intro!: nth_equalityI
            simp: nth_list_update)
  qed
qed

lemma difference_f32_yinBuffer:
  "yinBuffer (difference_f32 s buffer) =
     map (\<lambda>tau. if tau = 0 then Fin 0 else difference_sum_f32 buffer (length (yinBuffer s)) tau)
       [0..<length (yinBuffer s)]"
proof -
  have "map (\<lambda>tau. if 1 \<le> tau \<and> tau < length (yinBuffer s)
               then difference_sum_f32 buffer (length (yinBuffer s)) tau else Fin 0)
          [0..<length (yinBuffer s)] =
        map (\<lambda>tau. if tau = 0 then Fin 0
               else difference_sum_f32 buffer (length (yinBuffer s)) tau)
          [0..<length (yinBuffer s)]"
    by (intro map_cong) auto
  then show ?thesis
    using outer_loop_f32 [of "length (yinBuffer s)" "length (yinBuffer s)" buffer]
    by (simp add: difference_f32_def Let_def f32_set_def zero_loop_all)
qed

lemma on_grid_int:
  assumes "on_grid k x"
  shows "\<exists>z::int. \<bar>z\<bar> \<le> 2 ^ k \<and> x = of_int z / 2 ^ k"
proof -
  define z where "z = \<lfloor>x * 2 ^ k\<rfloor>"
  have zx: "of_int z = x * 2 ^ k" and x1: "\<bar>x\<bar> \<le> 1"
    using assms by (simp_all add: on_grid_def z_def)
  have "\<bar>real_of_int z\<bar> = \<bar>x\<bar> * 2 ^ k" by (simp add: zx abs_mult)
  also have "\<dots> \<le> 1 * 2 ^ k" using x1 by (intro mult_right_mono) simp_all
  finally have "real_of_int \<bar>z\<bar> \<le> real_of_int (2 ^ k)" by simp
  then have "\<bar>z\<bar> \<le> 2 ^ k" by (simp only: of_int_le_iff)
  moreover have "x = of_int z / 2 ^ k" by (simp add: zx)
  ultimately show ?thesis by blast
qed

lemma grid_exponent:
  assumes "4 * 4 ^ k < (2::nat) ^ 24"
  shows "k < 11"
proof (rule ccontr)
  assume "\<not> k < 11"
  then have "(4::nat) ^ 11 \<le> 4 ^ k" by (intro power_increasing) simp_all
  then show False using assms by simp
qed

lemma four_power: "(4::'a::comm_semiring_1) ^ k = 2 ^ (2 * k)"
  by (simp add: power_mult)

lemma square_two_power: "((2::'a::comm_semiring_1) ^ k)\<^sup>2 = 2 ^ (2 * k)"
  by (simp add: power_mult [symmetric] mult.commute)

lemma grid_delta_squared:
  assumes a: "\<bar>a\<bar> \<le> 2 ^ k" and b: "\<bar>b\<bar> \<le> 2 ^ k" and k: "4 * 4 ^ k < (2::nat) ^ 24"
  shows "d_mul (d_sub (Fin (of_int a / 2 ^ k)) (Fin (of_int b / 2 ^ k)))
               (d_sub (Fin (of_int a / 2 ^ k)) (Fin (of_int b / 2 ^ k))) =
         Fin (of_int ((a - b)\<^sup>2) / 2 ^ (2 * k))"
    and "(a - b)\<^sup>2 \<le> 4 * 4 ^ k"
proof -
  have k11: "k < 11" by (rule grid_exponent [OF k])
  have ab: "\<bar>a - b\<bar> \<le> 2 * 2 ^ k" using a b by linarith
  have "(a - b)\<^sup>2 = \<bar>a - b\<bar>\<^sup>2" by simp
  also have "\<dots> \<le> (2 * 2 ^ k)\<^sup>2" using ab by (intro power_mono) simp_all
  also have "\<dots> = 4 * 4 ^ k"
    by (simp only: power_mult_distrib square_two_power four_power) simp
  finally show sq: "(a - b)\<^sup>2 \<le> 4 * 4 ^ k" .
  have "int (4 * 4 ^ k) < int (2 ^ 24)"
    using k by (simp only: of_nat_less_iff)
  then have k4: "(4::int) * 4 ^ k < 2 ^ 24" by simp
  have big: "(2::int) ^ 24 < 2 ^ 53" by simp
  have "(2::int) * 2 ^ k \<le> 4 * 4 ^ k"
    by (intro mult_mono power_mono) simp_all
  then have d53: "\<bar>a - b\<bar> < 2 ^ 53" using ab k4 big by linarith
  have "0 \<le> (a - b)\<^sup>2" by simp
  then have s53: "\<bar>(a - b)\<^sup>2\<bar> < 2 ^ 53" using sq k4 big by linarith
  have sub: "d_sub (Fin (of_int a / 2 ^ k)) (Fin (of_int b / 2 ^ k)) =
             Fin (of_int (a - b) / 2 ^ k)"
    using to_double_ratio [OF d53, of k] k11
    by (simp add: d_sub_def js_sub_def diff_divide_distrib)
  have "of_int (a - b) / 2 ^ k * (of_int (a - b) / 2 ^ k) =
        (real_of_int (a - b) / 2 ^ k)\<^sup>2"
    by (simp only: power2_eq_square)
  also have "\<dots> = (of_int ((a - b)\<^sup>2) / 2 ^ (2 * k) :: real)"
    by (simp only: power_divide square_two_power of_int_power)
  finally have "of_int (a - b) / 2 ^ k * (of_int (a - b) / 2 ^ k) =
        (of_int ((a - b)\<^sup>2) / 2 ^ (2 * k) :: real)" .
  then show "d_mul (d_sub (Fin (of_int a / 2 ^ k)) (Fin (of_int b / 2 ^ k)))
               (d_sub (Fin (of_int a / 2 ^ k)) (Fin (of_int b / 2 ^ k))) =
         Fin (of_int ((a - b)\<^sup>2) / 2 ^ (2 * k))"
    using to_double_ratio [OF s53, of "2 * k"] k11
    by (simp add: sub d_mul_def)
qed

lemma grid_accumulate:
  assumes "0 \<le> S" and "0 \<le> T" and "S + T < 2 ^ 24" and "k < 11"
  shows "to_float32 (d_add (Fin (of_int S / 2 ^ (2 * k))) (Fin (of_int T / 2 ^ (2 * k)))) =
         Fin (of_int (S + T) / 2 ^ (2 * k))"
proof -
  have big: "(2::int) ^ 24 < 2 ^ 53" by simp
  have 2: "\<bar>S + T\<bar> < 2 ^ 24" using assms(1-3) by linarith
  have 1: "\<bar>S + T\<bar> < 2 ^ 53" using 2 big by linarith
  have "d_add (Fin (of_int S / 2 ^ (2 * k))) (Fin (of_int T / 2 ^ (2 * k))) =
        Fin (of_int (S + T) / 2 ^ (2 * k))"
    using to_double_ratio [OF 1, of "2 * k"] assms(4)
    by (simp add: d_add_def add_divide_distrib)
  then show ?thesis
    using to_float32_ratio [OF 2, of "2 * k"] assms(4) by simp
qed

lemma on_grid_floor:
  assumes "on_grid k x"
  shows "\<bar>\<lfloor>x * 2 ^ k\<rfloor>\<bar> \<le> 2 ^ k" and "x = of_int \<lfloor>x * 2 ^ k\<rfloor> / 2 ^ k"
proof -
  define z where "z = \<lfloor>x * 2 ^ k\<rfloor>"
  have zx: "of_int z = x * 2 ^ k" and x1: "\<bar>x\<bar> \<le> 1"
    using assms by (simp_all add: on_grid_def z_def)
  have "\<bar>real_of_int z\<bar> = \<bar>x\<bar> * 2 ^ k" by (simp add: zx abs_mult)
  also have "\<dots> \<le> 1 * 2 ^ k" using x1 by (intro mult_right_mono) simp_all
  finally have "real_of_int \<bar>z\<bar> \<le> real_of_int (2 ^ k)" by simp
  then show "\<bar>\<lfloor>x * 2 ^ k\<rfloor>\<bar> \<le> 2 ^ k" unfolding z_def by (simp only: of_int_le_iff)
  have "x * 2 ^ k / 2 ^ k = x" by simp
  then have "of_int z / 2 ^ k = x" by (simp only: zx)
  then show "x = of_int \<lfloor>x * 2 ^ k\<rfloor> / 2 ^ k" unfolding z_def by (rule sym)
qed

lemma delta_squared_f64_Fin:
  "i + tau < length xs \<Longrightarrow>
     delta_squared_f64 (map Fin xs) tau i =
       d_mul (d_sub (Fin (xs ! i)) (Fin (xs ! (i + tau))))
             (d_sub (Fin (xs ! i)) (Fin (xs ! (i + tau))))"
  by (simp add: delta_squared_f64_def Let_def)

lemma grid_sum:
  assumes g: "\<forall>x\<in>set xs. on_grid k x" and len: "h + tau \<le> length xs"
    and k: "4 * h * 4 ^ k < (2::nat) ^ 24" and m: "m \<le> h"
  shows "fold (\<lambda>i acc. to_float32 (d_add acc (delta_squared_f64 (map Fin xs) tau i)))
             [0..<m] (Fin 0) =
         Fin (\<Sum>i<m. (xs ! i - xs ! (i + tau))\<^sup>2)"
proof -
  define z where "z i = \<lfloor>xs ! i * 2 ^ k\<rfloor>" for i
  define T where "T i = (z i - z (i + tau))\<^sup>2" for i
  have z: "\<bar>z i\<bar> \<le> 2 ^ k" "xs ! i = of_int (z i) / 2 ^ k" if "i < length xs" for i
    using on_grid_floor [of k "xs ! i"] g that by (simp_all add: z_def)
  have T0: "0 \<le> T i" for i by (simp add: T_def)
  have sq: "(xs ! i - xs ! (i + tau))\<^sup>2 = of_int (T i) / 2 ^ (2 * k)" if "i < h" for i
  proof -
    have "xs ! i - xs ! (i + tau) = of_int (z i - z (i + tau)) / 2 ^ k"
      using z(2) [of i] z(2) [of "i + tau"] that len by (simp add: diff_divide_distrib)
    then show ?thesis
      by (simp only: T_def power_divide square_two_power of_int_power)
  qed
  have fold_eq: "fold (\<lambda>i acc. to_float32 (d_add acc (delta_squared_f64 (map Fin xs) tau i)))
             [0..<m] (Fin 0) = Fin (of_int (\<Sum>i<m. T i) / 2 ^ (2 * k))" if "m \<le> h" for m
    using that
  proof (induction m)
    case 0
    show ?case by simp
  next
    case (Suc m)
    have mh: "m < h" "m \<le> h" using Suc.prems by simp_all
    have "4 * 1 * 4 ^ k \<le> 4 * h * 4 ^ k"
      using mh by (intro mult_left_mono mult_right_mono) simp_all
    then have "4 * 4 ^ k \<le> 4 * h * 4 ^ k" by simp
    then have k1: "4 * 4 ^ k < (2::nat) ^ 24" by (rule le_less_trans [OF _ k])
    have k11: "k < 11" by (rule grid_exponent [OF k1])
    have zm: "\<bar>z m\<bar> \<le> 2 ^ k" "\<bar>z (m + tau)\<bar> \<le> 2 ^ k"
      using z(1) [of m] z(1) [of "m + tau"] mh len by simp_all
    have d: "delta_squared_f64 (map Fin xs) tau m = Fin (of_int (T m) / 2 ^ (2 * k))"
      using grid_delta_squared(1) [OF zm k1] z(2) [of m] z(2) [of "m + tau"] mh len
      by (simp add: delta_squared_f64_Fin T_def)
    have bound: "T i \<le> 4 * 4 ^ k" if "i < h" for i
      unfolding T_def using z(1) [of i] z(1) [of "i + tau"] that len
      by (intro grid_delta_squared(2) [OF _ _ k1]) simp_all
    have "(\<Sum>i<Suc m. T i) \<le> of_nat (card {..<Suc m}) * (4 * 4 ^ k)"
      using bound mh by (intro sum_bounded_above) simp
    also have "\<dots> = int (Suc m * (4 * 4 ^ k))" by (simp add: algebra_simps)
    also have "\<dots> \<le> int (h * (4 * 4 ^ k))"
      using Suc.prems by (intro of_nat_mono mult_right_mono) simp_all
    also have "\<dots> < int (2 ^ 24)"
      using k by (intro of_nat_less_iff [THEN iffD2]) (simp add: mult.commute mult.left_commute)
    finally have lt: "(\<Sum>i<m. T i) + T m < 2 ^ 24" by simp
    have S0: "0 \<le> (\<Sum>i<m. T i)" by (intro sum_nonneg T0)
    have "fold (\<lambda>i acc. to_float32 (d_add acc (delta_squared_f64 (map Fin xs) tau i)))
             [0..<Suc m] (Fin 0) =
          to_float32 (d_add (Fin (of_int (\<Sum>i<m. T i) / 2 ^ (2 * k)))
             (Fin (of_int (T m) / 2 ^ (2 * k))))"
      by (simp add: Suc.IH [OF mh(2)] d)
    also have "\<dots> = Fin (of_int ((\<Sum>i<m. T i) + T m) / 2 ^ (2 * k))"
      by (rule grid_accumulate [OF S0 T0 lt k11])
    finally show ?case by simp
  qed
  have "(\<Sum>i<m. (xs ! i - xs ! (i + tau))\<^sup>2) = (\<Sum>i<m. real_of_int (T i) / 2 ^ (2 * k))"
    using m by (intro sum.cong) (simp_all add: sq)
  also have "\<dots> = of_int (\<Sum>i<m. T i) / 2 ^ (2 * k)"
    by (simp only: sum_divide_distrib of_int_sum)
  finally show ?thesis using fold_eq [OF m] by simp
qed

lemma difference_sum_f32_grid:
  assumes "\<forall>x\<in>set xs. on_grid k x" and "h + tau \<le> length xs"
    and "4 * h * 4 ^ k < (2::nat) ^ 24"
  shows "difference_sum_f32 (map Fin xs) h tau = Fin (difference_exact xs h tau)"
  unfolding difference_sum_f32_def difference_exact_def
  by (rule grid_sum [OF assms order_refl])

lemma to_double_one [simp]: "to_double (Fin 1) = Fin 1"
  using to_double_int [of 1] by simp

lemma to_float32_one [simp]: "to_float32 (Fin 1) = Fin 1"
  using to_float32_ratio [of 1 0] by simp

lemma to_float32_above_one: "to_float32 (Fin (1 + 1 / 67108864)) = Fin 1"
proof -
  let ?x = "1 + 1 / 67108864 :: real"
  have e: "ulp_exponent 24 (- 126) ?x = - 23"
    using ulp_exponent_normal [of 0 ?x "- 126" 24] by simp
  have "round_binary 24 (- 126) ?x = of_int (2 ^ 23) * 2 powr of_int (- 23)"
    by (rule round_binary_near [OF _ e]) (simp_all add: powr_minus)
  also have "\<dots> = 1" by (simp add: powr_minus)
  finally show ?thesis by (simp add: to_float32_Fin)
qed

lemma small_square:
  "d_mul (d_sub (Fin (1 / 8192)) (Fin 0)) (d_sub (Fin (1 / 8192)) (Fin 0)) = Fin (1 / 67108864)"
  "d_mul (d_sub (Fin 0) (Fin (1 / 8192))) (d_sub (Fin 0) (Fin (1 / 8192))) = Fin (1 / 67108864)"
  "d_mul (d_sub (Fin 1) (Fin 0)) (d_sub (Fin 1) (Fin 0)) = Fin 1"
  "d_mul (d_sub (Fin 0) (Fin 0)) (d_sub (Fin 0) (Fin 0)) = Fin 0"
  using to_double_ratio [of 1 13] to_double_ratio [of "- 1" 13] to_double_ratio [of 1 26]
  by (simp_all add: d_mul_def d_sub_def js_sub_def)

lemma absorbed:
  "to_float32 (d_add (Fin 1) (Fin (1 / 67108864))) = Fin 1"
  "to_float32 (d_add (Fin 1) (Fin 0)) = Fin 1"
  "to_float32 (d_add (Fin 0) (Fin 1)) = Fin 1"
  using to_double_ratio [of "2 ^ 26 + 1" 26] to_float32_above_one
  by (simp_all add: d_add_def add_divide_distrib)

lemma rounding_squares:
  assumes "xs ! 0 = 1" and "xs ! Suc 0 = 0" and "xs ! Suc (Suc 0) = 1 / 8192"
    and "\<And>i. 3 \<le> i \<Longrightarrow> i < length xs \<Longrightarrow> xs ! i = 0" and "i + 1 < length xs"
  shows "delta_squared_f64 (map Fin xs) 1 i =
           (if i = 0 then Fin 1 else if i < 3 then Fin (1 / 67108864) else Fin 0)"
proof -
  consider "i = 0" | "i = 1" | "i = 2" | "3 \<le> i" by linarith
  then show ?thesis
  proof cases
    case 1
    then show ?thesis
      using assms(5) delta_squared_f64_Fin [of 0 1 xs] by (simp add: small_square assms(1,2))
  next
    case 2
    then show ?thesis
      using assms(5) delta_squared_f64_Fin [of 1 1 xs]
      by (simp add: small_square assms(2,3))
  next
    case 3
    then show ?thesis
      using assms(5) assms(4) [of 3] delta_squared_f64_Fin [of 2 1 xs]
      by (simp add: small_square numeral_3_eq_3 numeral_2_eq_2 assms(3))
  next
    case 4
    then show ?thesis
      using assms(4) [of i] assms(4) [of "i + 1"] assms(5) delta_squared_f64_Fin [of i 1 xs]
      by (simp add: small_square)
  qed
qed

lemma rounding_sum:
  assumes "xs ! 0 = 1" and "xs ! Suc 0 = 0" and "xs ! Suc (Suc 0) = 1 / 8192"
    and "\<And>i. 3 \<le> i \<Longrightarrow> i < length xs \<Longrightarrow> xs ! i = 0" and "h + 1 \<le> length xs"
    and "m < h"
  shows "fold (\<lambda>i acc. to_float32 (d_add acc (delta_squared_f64 (map Fin xs) 1 i)))
           [0..<Suc m] (Fin 0) = Fin 1"
  using \<open>m < h\<close>
proof (induction m)
  case 0
  then have "0 + 1 < length xs" using assms(5) by simp
  then show ?case
    using rounding_squares [OF assms(1-4), of 0] by (simp add: absorbed)
next
  case (Suc m)
  then have "Suc m + 1 < length xs" "m < h" using assms(5) by simp_all
  then show ?case
    using rounding_squares [OF assms(1-4), of "Suc m"] Suc.IH
    by (simp add: absorbed)
qed

lemma exact_sum:
  assumes "xs ! 0 = 1" and "xs ! Suc 0 = 0" and "xs ! Suc (Suc 0) = 1 / 8192" and "xs ! Suc (Suc (Suc 0)) = 0"
    and "\<And>i. 3 \<le> i \<Longrightarrow> i < length xs \<Longrightarrow> xs ! i = 0" and "h + 4 \<le> length xs"
  shows "difference_exact xs (h + 3) 1 = 1 + 1 / 2 ^ 25"
  using \<open>h + 4 \<le> length xs\<close>
proof (induction h)
  case 0
  show ?case
    by (simp add: difference_exact_def lessThan_Suc numeral_3_eq_3 numeral_2_eq_2
          power2_eq_square assms(1-4))
next
  case (Suc h)
  have len: "h + 4 \<le> length xs" using Suc.prems by simp
  have z: "xs ! (h + 3) = 0" "xs ! (h + 3 + 1) = 0"
    using assms(5) [of "h + 3"] assms(5) [of "h + 3 + 1"] Suc.prems by simp_all
  have "difference_exact xs (Suc (h + 3)) 1 =
        difference_exact xs (h + 3) 1 + (xs ! (h + 3) - xs ! (h + 3 + 1))\<^sup>2"
    unfolding difference_exact_def by (rule sum.lessThan_Suc)
  also have "\<dots> = 1 + 1 / 2 ^ 25"
    unfolding z Suc.IH [OF len] by simp
  finally show ?case by simp
qed

lemma rounding_frame_nth:
  "rounding_frame ! 0 = 1" "rounding_frame ! Suc 0 = 0"
  "rounding_frame ! Suc (Suc 0) = 1 / 8192"
  "rounding_frame ! Suc (Suc (Suc 0)) = 0" "length rounding_frame = 2048"
  "3 \<le> i \<Longrightarrow> i < length rounding_frame \<Longrightarrow> rounding_frame ! i = 0"
  by (simp_all add: rounding_frame_def nth_list_update)

lemma rounding_frame_float32:
  "map to_float32 (map Fin rounding_frame) = map Fin rounding_frame"
  using to_float32_ratio [of 1 13]
  by (simp add: rounding_frame_def map_update)

text \<open>
  Claim C9, as amended. \<open>difference_f32\<close> leaves 0 at lag 0 and, at every lag \<open>tau\<close> from
  1 up to the length \<open>h\<close> of the buffer, what the inner loop accumulates from zero over
  \<open>i < h\<close>: each square \<open>(x[i] - x[i + tau])\<^sup>2\<close> computed in doubles and each partial sum
  rounded to a single by the store. The audio buffer is not touched. The buffer is zeroed
  first: two processors whose difference buffers have the same length get the same
  result from the same frame, whatever the buffers held before. When every sample is a
  multiple of \<open>1 / 2\<^sup>k\<close> between -1 and 1, the frame is long enough for every read and
  \<open>4 * h * 4 ^ k < 2 ^ 24\<close> (at the real size \<open>h = 1024\<close>: \<open>k \<le> 5\<close>), nothing is rounded and
  the value at lag \<open>tau\<close> is the sum \<open>d(tau)\<close> itself.
\<close>

theorem difference_rounded_formula:
  "yinBuffer (difference_f32 s buffer) =
     map (\<lambda>tau. if tau = 0 then Fin 0
                else difference_sum_f32 buffer (length (yinBuffer s)) tau)
       [0..<length (yinBuffer s)] \<and>
   audioBuffer (difference_f32 s buffer) = audioBuffer s \<and>
   (length (yinBuffer s') = length (yinBuffer s) \<longrightarrow>
      yinBuffer (difference_f32 s' buffer) = yinBuffer (difference_f32 s buffer)) \<and>
   (list_all (on_grid k) xs \<and> 2 * length (yinBuffer s) \<le> length xs \<and>
    4 * length (yinBuffer s) * 4 ^ k < 2 ^ 24 \<longrightarrow>
      yinBuffer (difference_f32 s (map Fin xs)) =
        map (\<lambda>tau. if tau = 0 then Fin 0
                   else Fin (difference_exact xs (length (yinBuffer s)) tau))
          [0..<length (yinBuffer s)])"
proof -
  have "yinBuffer (difference_f32 s' buffer) = yinBuffer (difference_f32 s buffer)"
    if "length (yinBuffer s') = length (yinBuffer s)"
    by (simp only: difference_f32_yinBuffer that)
  moreover have "audioBuffer (difference_f32 s buffer) = audioBuffer s"
    by (simp add: difference_f32_def Let_def)
  moreover have "yinBuffer (difference_f32 s (map Fin xs)) =
        map (\<lambda>tau. if tau = 0 then Fin 0
                   else Fin (difference_exact xs (length (yinBuffer s)) tau))
          [0..<length (yinBuffer s)]"
    if g: "list_all (on_grid k) xs" and len: "2 * length (yinBuffer s) \<le> length xs"
      and k: "4 * length (yinBuffer s) * 4 ^ k < (2::nat) ^ 24"
  proof -
    have "difference_sum_f32 (map Fin xs) (length (yinBuffer s)) tau =
          Fin (difference_exact xs (length (yinBuffer s)) tau)"
      if "tau < length (yinBuffer s)" for tau
      using g len that by (intro difference_sum_f32_grid [OF _ _ k]) (simp_all add: list_all_iff)
    then show ?thesis
      unfolding difference_f32_yinBuffer by (intro map_cong) auto
  qed
  ultimately show ?thesis using difference_f32_yinBuffer [of s buffer] by blast
qed

theorem difference_rounded_formula_witness:
  "list_all (on_grid 1) [1, 0, 1 / 2, 1] \<and>
   2 * length (yinBuffer \<lparr>audioBuffer = [], yinBuffer = [Fin 7, Fin 9]\<rparr>) \<le>
     length [1, 0, 1 / 2, 1 :: real] \<and>
   4 * length (yinBuffer \<lparr>audioBuffer = [], yinBuffer = [Fin 7, Fin 9]\<rparr>) * 4 ^ 1 < (2::nat) ^ 24 \<and>
   yinBuffer (difference_f32 \<lparr>audioBuffer = [], yinBuffer = [Fin 7, Fin 9]\<rparr>
       (map Fin [1, 0, 1 / 2, 1])) = [Fin 0, Fin (5 / 4)] \<and>
   length (yinBuffer \<lparr>audioBuffer = [], yinBuffer = [Fin 3, Fin 4]\<rparr>) =
     length (yinBuffer \<lparr>audioBuffer = [], yinBuffer = [Fin 7, Fin 9]\<rparr>) \<and>
   yinBuffer (difference_f32 \<lparr>audioBuffer = [], yinBuffer = [Fin 3, Fin 4]\<rparr> [Fin 1, NaN, PInf]) =
     yinBuffer (difference_f32 \<lparr>audioBuffer = [], yinBuffer = [Fin 7, Fin 9]\<rparr> [Fin 1, NaN, PInf])"
proof -
  have g: "list_all (on_grid 1) [1, 0, 1 / 2, 1]"
    by (simp add: on_grid_def)
  have e: "difference_exact [1, 0, 1 / 2, 1] (Suc (Suc 0)) (Suc 0) = 5 / 4"
    by (simp add: difference_exact_def lessThan_Suc power2_eq_square)
  show ?thesis
    using difference_rounded_formula [of "\<lparr>audioBuffer = [], yinBuffer = [Fin 7, Fin 9]\<rparr>"
      "[Fin 1, NaN, PInf]" "\<lparr>audioBuffer = [], yinBuffer = [Fin 3, Fin 4]\<rparr>" 1 "[1, 0, 1 / 2, 1]"] g
    by (simp add: upt_rec e del: upt_Suc)
qed

text \<open>
  In general the stored value is not the sum. On the frame 1, 0, \<open>1 / 8192\<close>, 0, ... of
  the real size the sum at lag 1 is \<open>1 + 1 / 2 ^ 25\<close>; the two squares \<open>1 / 2 ^ 26\<close> are each
  lost when the partial sum is stored, and the buffer holds 1.
\<close>

theorem difference_sum_is_rounded:
  "length rounding_frame = BUFFER_SIZE \<and>
   map to_float32 (map Fin rounding_frame) = map Fin rounding_frame \<and>
   yinBuffer (difference_f32 AudioProcessor_new (map Fin rounding_frame)) ! 1 = Fin 1 \<and>
   difference_exact rounding_frame (BUFFER_SIZE div 2) 1 = 1 + 1 / 2 ^ 25"
proof -
  have s: "difference_sum_f32 (map Fin rounding_frame) (Suc 1023) 1 = Fin 1"
    unfolding difference_sum_f32_def
    by (rule rounding_sum [where h = 1024]) (simp_all add: rounding_frame_nth)
  have "yinBuffer (difference_f32 AudioProcessor_new (map Fin rounding_frame)) ! 1 =
        difference_sum_f32 (map Fin rounding_frame) (Suc 1023) 1"
    by (simp add: difference_f32_yinBuffer new_lengths BUFFER_SIZE_def)
  then have 1: "yinBuffer (difference_f32 AudioProcessor_new (map Fin rounding_frame)) ! 1 = Fin 1"
    by (simp only: s)
  have "difference_exact rounding_frame (1021 + 3) 1 = 1 + 1 / 2 ^ 25"
    by (rule exact_sum) (simp_all add: rounding_frame_nth)
  then have 2: "difference_exact rounding_frame (BUFFER_SIZE div 2) 1 = 1 + 1 / 2 ^ 25"
    by (simp add: BUFFER_SIZE_def)
  have 3: "length rounding_frame = BUFFER_SIZE"
    by (simp add: rounding_frame_nth BUFFER_SIZE_def)
  show ?thesis using 1 2 3 rounding_frame_float32 by blast
qed

text \<open>
  Claim C3, as amended. For an all-zero frame \<open>detectPitch\<close> returns null and the pitch
  callback is not called; nothing is raised. The running sum is zero at every lag and the
  normalisation divides by it without a guard: the quotient is \<open>+\<infinity>\<close>, its product with the
  zero difference is NaN, and NaN is what the buffer holds at every lag from 1 on. NaN is
  never below the threshold, so the search finds no lag. No confidence is computed:
  \<open>detectPitch\<close> returns a number or null.
\<close>

theorem silent_frame_no_pitch:
  assumes "2 * length (yinBuffer s) \<le> n"
  shows "snd (detectPitch s (replicate n (Fin 0))) = None \<and>
         yinBuffer (fst (detectPitch s (replicate n (Fin 0)))) =
           (replicate (length (yinBuffer s)) NaN)[0 := Fin 1] \<and>
         (n = length (audioBuffer s) \<longrightarrow>
            snd (processAudio s (replicate n (Fin 0))) = Inr None)"
proof -
  have dp: "detectPitch s (replicate n (Fin 0)) =
      (s\<lparr>yinBuffer := (replicate (length (yinBuffer s)) NaN)[0 := Fin 1]\<rparr>, None)"
    by (rule silent_detectPitch [OF assms])
  have "snd (processAudio s (replicate n (Fin 0))) = Inr None" if n: "n = length (audioBuffer s)"
  proof -
    let ?s0 = "s\<lparr>audioBuffer := replicate n (Fin 0)\<rparr>"
    have "2 * length (yinBuffer ?s0) \<le> n" using assms by simp
    from silent_detectPitch [OF this]
    show ?thesis by (simp add: processAudio_def Let_def n [symmetric])
  qed
  with dp show ?thesis by simp
qed

theorem silent_frame_no_pitch_witness:
  "2 * length (yinBuffer AudioProcessor_new) \<le> BUFFER_SIZE \<and>
   BUFFER_SIZE = length (audioBuffer AudioProcessor_new) \<and>
   snd (detectPitch AudioProcessor_new (replicate BUFFER_SIZE (Fin 0))) = None \<and>
   snd (processAudio AudioProcessor_new (replicate BUFFER_SIZE (Fin 0))) = Inr None"
  using silent_frame_no_pitch [of AudioProcessor_new BUFFER_SIZE]
  by (simp add: new_lengths)

text \<open>
  Claim C3 as stated fails: on the silent frame of the real size the normalisation step
  does divide by the zero running sum. At lag 1 the buffer holds NaN afterwards, the
  product of the zero difference and \<open>1 / 0 = +\<infinity>\<close>.
\<close>

theorem silent_frame_divides_by_zero:
  "ToNumber (ta_get (yinBuffer (cumulativeMeanNormalizedDifference
      (difference AudioProcessor_new (replicate BUFFER_SIZE (Fin 0))))) 1) = NaN \<and>
   js_div (Fin 1) (Fin 0) = PInf \<and> js_mul (Fin 0) PInf = NaN"
proof -
  have "2 * length (yinBuffer AudioProcessor_new) \<le> BUFFER_SIZE"
    by (simp add: new_lengths)
  from silent_cmnd [OF this] show ?thesis
    using ta_get_in [of 1 "(replicate (BUFFER_SIZE div 2) NaN)[0 := Fin 1]"]
    by (simp add: new_lengths BUFFER_SIZE_def)
qed

lemma processAudio_reject:
  "length (audioBuffer s) < length frame \<Longrightarrow> processAudio s frame = (s, Inl RangeError)"
  by (simp add: processAudio_def)

lemma processAudio_accept:
  assumes "length frame \<le> length (audioBuffer s)"
  shows "processAudio s frame = processAudio s (frame @ drop (length frame) (audioBuffer s))"
    and "\<exists>r. snd (processAudio s frame) = Inr r"
    and "audioBuffer (fst (processAudio s frame)) = frame @ drop (length frame) (audioBuffer s)"
  using assms by (simp_all add: processAudio_def Let_def)

lemma audioProcessor_handlePitchDetected [simp]:
  "audioProcessor (handlePitchDetected app p) = audioProcessor app"
  by (simp add: handlePitchDetected_def)

text \<open>
  Claim C8, as amended. A frame longer than the audio buffer is rejected: the copy into
  the buffer throws a RangeError before anything is written and the application,
  with its active notes, is unchanged. A shorter frame is not rejected: it overwrites the
  first samples of the audio buffer, no error is raised, and the call does exactly what it
  does for the full-length frame made of the new samples followed by the old rest.
\<close>

theorem frame_length_mismatch:
  "(length (audioBuffer (audioProcessor app)) < length frame \<longrightarrow>
      onaudioprocess app frame = (app, Some RangeError)) \<and>
   (length frame \<le> length (audioBuffer (audioProcessor app)) \<longrightarrow>
      snd (onaudioprocess app frame) = None \<and>
      audioBuffer (audioProcessor (fst (onaudioprocess app frame))) =
        frame @ drop (length frame) (audioBuffer (audioProcessor app)) \<and>
      onaudioprocess app frame =
        onaudioprocess app (frame @ drop (length frame) (audioBuffer (audioProcessor app))))"
proof (intro conjI impI)
  assume "length (audioBuffer (audioProcessor app)) < length frame"
  then show "onaudioprocess app frame = (app, Some RangeError)"
    by (simp add: onaudioprocess_def processAudio_reject)
next
  assume le: "length frame \<le> length (audioBuffer (audioProcessor app))"
  obtain r where r: "snd (processAudio (audioProcessor app) frame) = Inr r"
    using processAudio_accept(2) [OF le] by blast
  show "snd (onaudioprocess app frame) = None"
    by (simp add: onaudioprocess_def Let_def r split: option.splits)
  show "audioBuffer (audioProcessor (fst (onaudioprocess app frame))) =
        frame @ drop (length frame) (audioBuffer (audioProcessor app))"
    using processAudio_accept(3) [OF le]
    by (simp add: onaudioprocess_def Let_def r split: option.splits)
  show "onaudioprocess app frame =
        onaudioprocess app (frame @ drop (length frame) (audioBuffer (audioProcessor app)))"
    using processAudio_accept(1) [OF le] by (simp add: onaudioprocess_def)
qed

lemma silent_processAudio:
  assumes "audioBuffer s = replicate n (Fin 0)" and "2 * length (yinBuffer s) \<le> n"
  shows "processAudio s (replicate n (Fin 0)) =
           (s\<lparr>yinBuffer := (replicate (length (yinBuffer s)) NaN)[0 := Fin 1]\<rparr>, Inr None)"
proof -
  have eq: "s\<lparr>audioBuffer := replicate n (Fin 0)\<rparr> = s"
    using assms(1) by (cases s) simp
  show ?thesis
    by (simp add: processAudio_def Let_def assms(1) eq silent_detectPitch [OF assms(2)])
qed

lemma new_short_frame:
  "onaudioprocess App_new [Fin 0] =
     (App_new\<lparr>audioProcessor :=
        AudioProcessor_new\<lparr>yinBuffer := (replicate (BUFFER_SIZE div 2) NaN)[0 := Fin 1]\<rparr>\<rparr>, None)"
proof -
  have pad: "[Fin 0] @ drop (length [Fin 0 :: jsnum]) (audioBuffer AudioProcessor_new) =
             replicate BUFFER_SIZE (Fin 0)"
    by (simp add: AudioProcessor_new_def BUFFER_SIZE_def replicate_Suc [symmetric]
        del: replicate_Suc)
  have "processAudio AudioProcessor_new (replicate BUFFER_SIZE (Fin 0)) =
      (AudioProcessor_new\<lparr>yinBuffer := (replicate (BUFFER_SIZE div 2) NaN)[0 := Fin 1]\<rparr>, Inr None)"
    using silent_processAudio [of AudioProcessor_new BUFFER_SIZE]
    by (simp add: AudioProcessor_new_def)
  moreover have "processAudio AudioProcessor_new [Fin 0] =
      processAudio AudioProcessor_new (replicate BUFFER_SIZE (Fin 0))"
    using processAudio_accept(1) [of "[Fin 0]" AudioProcessor_new]
    by (simp only: pad) (simp add: new_lengths BUFFER_SIZE_def)
  ultimately show ?thesis
    by (simp add: onaudioprocess_def Let_def App_new_def)
qed

theorem frame_length_mismatch_witness:
  "length (audioBuffer (audioProcessor App_new)) < length (replicate (BUFFER_SIZE + 1) (Fin 0)) \<and>
   onaudioprocess App_new (replicate (BUFFER_SIZE + 1) (Fin 0)) = (App_new, Some RangeError) \<and>
   length [Fin 1] \<le> length (audioBuffer (audioProcessor App_new)) \<and>
   snd (onaudioprocess App_new [Fin 1]) = None \<and>
   audioBuffer (audioProcessor (fst (onaudioprocess App_new [Fin 1]))) =
     Fin 1 # replicate (BUFFER_SIZE - 1) (Fin 0)"
proof -
  have long: "length (audioBuffer (audioProcessor App_new)) <
              length (replicate (BUFFER_SIZE + 1) (Fin 0))"
    and short: "length [Fin 1] \<le> length (audioBuffer (audioProcessor App_new))"
    and pad: "[Fin 1] @ drop (length [Fin 1 :: jsnum]) (audioBuffer (audioProcessor App_new)) =
              Fin 1 # replicate (BUFFER_SIZE - 1) (Fin 0)"
    by (simp_all add: App_new_def AudioProcessor_new_def BUFFER_SIZE_def)
  have "onaudioprocess App_new (replicate (BUFFER_SIZE + 1) (Fin 0)) = (App_new, Some RangeError)"
    using frame_length_mismatch [of App_new "replicate (BUFFER_SIZE + 1) (Fin 0)"] long
    by blast
  moreover have "snd (onaudioprocess App_new [Fin 1]) = None"
    and "audioBuffer (audioProcessor (fst (onaudioprocess App_new [Fin 1]))) =
         [Fin 1] @ drop (length [Fin 1 :: jsnum]) (audioBuffer (audioProcessor App_new))"
    using frame_length_mismatch [of App_new "[Fin 1]"] short by blast+
  ultimately show ?thesis
    using long short unfolding pad by blast
qed

text \<open>
  Claim C8 as stated fails: a frame of one sample, given to the freshly built application
  whose frame length is 2048, is not rejected. No error is raised and the frame is
  analysed: the difference buffer is rewritten.
\<close>

theorem short_frame_accepted:
  "length [Fin 0] \<noteq> BUFFER_SIZE \<and>
   snd (onaudioprocess App_new [Fin 0]) = None \<and>
   yinBuffer (audioProcessor (fst (onaudioprocess App_new [Fin 0]))) =
     (replicate (BUFFER_SIZE div 2) NaN)[0 := Fin 1]"
  by (simp add: new_short_frame BUFFER_SIZE_def)

section \<open>The estimator on two frames of the real size\<close>

lemma difference_Fin:
  assumes "2 * length (yinBuffer s) \<le> length xs"
  shows "yinBuffer (difference s (map Fin xs)) =
           map Fin (map (\<lambda>tau. if tau = 0 then 0
                               else \<Sum>i<length (yinBuffer s). (xs ! i - xs ! (i + tau))\<^sup>2)
                      [0..<length (yinBuffer s)])"
proof -
  have "difference_sum (map Fin xs) (length (yinBuffer s)) tau =
        Fin (\<Sum>i<length (yinBuffer s). (xs ! i - xs ! (i + tau))\<^sup>2)"
    if "tau < length (yinBuffer s)" for tau
    using that assms by (intro difference_sum_Fin) simp
  then show ?thesis
    unfolding difference_yinBuffer map_map by (intro map_cong) auto
qed

lemma cmnd_nth:
  assumes "yinBuffer s = map Fin ds" and "1 \<le> tau" and "tau < length ds"
  shows "yinBuffer (cumulativeMeanNormalizedDifference s) ! tau =
           js_mul (Fin (ds ! tau)) (js_div (Fin (real tau)) (Fin (\<Sum>j\<in>{1..tau}. ds ! j)))"
  using assms(2,3) unfolding cmnd_yinBuffer [OF assms(1)]
  by (simp del: js_mul.simps js_div.simps)

lemma cmnd_length:
  "yinBuffer s = map Fin ds \<Longrightarrow>
     length (yinBuffer (cumulativeMeanNormalizedDifference s)) = length ds"
  by (simp add: cmnd_yinBuffer)

lemma parabolicInterpolation_boundary:
  "tau + 1 = int (length (yinBuffer s)) \<Longrightarrow> parabolicInterpolation s tau = NaN"
  by (simp add: parabolicInterpolation_def Let_def ta_get_def js_sub_def)

lemma impulse_sum_inner:
  fixes h tau :: nat
  assumes "1 \<le> tau" and "tau + 2 \<le> h"
  defines "x \<equiv> \<lambda>i. if i = 0 \<or> i = h - 1 \<or> i = 2 * h - 2 then (1::real) else 0"
  shows "(\<Sum>i<h. (x i - x (i + tau))\<^sup>2) = 3"
proof -
  have "(\<Sum>i<h. (x i - x (i + tau))\<^sup>2) =
        (\<Sum>i<h. (if i = 0 then 1 else 0) + (if i = h - 1 then 1 else 0) +
                 (if i = h - 1 - tau then 1 else (0::real)))"
    using assms(1,2) by (intro sum.cong) (auto simp: x_def)
  also have "\<dots> = 3"
    using assms(1,2) by (simp add: sum.distrib)
  finally show ?thesis .
qed

lemma impulse_sum_last:
  fixes h :: nat
  assumes "2 \<le> h"
  defines "x \<equiv> \<lambda>i. if i = 0 \<or> i = h - 1 \<or> i = 2 * h - 2 then (1::real) else 0"
  shows "(\<Sum>i<h. (x i - x (i + (h - 1)))\<^sup>2) = 0"
  using assms(1) by (intro sum.neutral) (auto simp: x_def)


lemma impulse_nth:
  assumes "2 \<le> h" and "i < 2 * h"
  shows "(replicate (2 * h) (0::real))[0 := 1, h - 1 := 1, 2 * h - 2 := 1] ! i =
           (if i = 0 \<or> i = h - 1 \<or> i = 2 * h - 2 then 1 else 0)"
  using assms by (simp add: nth_list_update)

lemma impulse_difference:
  assumes h: "length (yinBuffer s) = h" "3 \<le> h"
  shows "yinBuffer (difference s
           (map Fin ((replicate (2 * h) 0)[0 := 1, h - 1 := 1, 2 * h - 2 := 1]))) =
         map Fin (map (\<lambda>tau. if 1 \<le> tau \<and> tau + 2 \<le> h then 3 else 0) [0..<h])"
proof -
  let ?xs = "(replicate (2 * h) (0::real))[0 := 1, h - 1 := 1, 2 * h - 2 := 1]"
  let ?x = "\<lambda>i. if i = 0 \<or> i = h - 1 \<or> i = 2 * h - 2 then (1::real) else 0"
  have sum: "(\<Sum>i<h. (?xs ! i - ?xs ! (i + tau))\<^sup>2) = (\<Sum>i<h. (?x i - ?x (i + tau))\<^sup>2)"
    if "tau < h" for tau
  proof (rule sum.cong [OF refl])
    fix i assume "i \<in> {..<h}"
    then have "i < 2 * h" "i + tau < 2 * h" using that by simp_all
    then show "(?xs ! i - ?xs ! (i + tau))\<^sup>2 = (?x i - ?x (i + tau))\<^sup>2"
      using h(2) by (simp only: impulse_nth [of h])
  qed
  have val: "(if tau = 0 then 0 else \<Sum>i<h. (?xs ! i - ?xs ! (i + tau))\<^sup>2) =
             (if 1 \<le> tau \<and> tau + 2 \<le> h then 3 else 0)" if "tau < h" for tau
  proof (cases "tau = 0")
    case True
    then show ?thesis by simp
  next
    case False
    then have pos: "1 \<le> tau" by simp
    show ?thesis
    proof (cases "tau + 2 \<le> h")
      case True
      have "(\<Sum>i<h. (?xs ! i - ?xs ! (i + tau))\<^sup>2) = 3"
        unfolding sum [OF that] by (rule impulse_sum_inner [OF pos True])
      with False pos True show ?thesis by (simp only: if_True if_False simp_thms)
    next
      case last: False
      then have tau: "tau = h - 1" using that by simp
      have "2 \<le> h" using h(2) by simp
      then have "(\<Sum>i<h. (?xs ! i - ?xs ! (i + tau))\<^sup>2) = 0"
        unfolding sum [OF that] unfolding tau by (rule impulse_sum_last)
      with False last show ?thesis by (simp only: if_True if_False simp_thms)
    qed
  qed
  have len: "2 * length (yinBuffer s) \<le> length ?xs" using h by simp
  have "map (\<lambda>tau. if tau = 0 then 0 else \<Sum>i<h. (?xs ! i - ?xs ! (i + tau))\<^sup>2) [0..<h] =
        map (\<lambda>tau. if 1 \<le> tau \<and> tau + 2 \<le> h then 3 else 0) [0..<h]"
  proof (rule map_cong [OF refl])
    fix tau assume "tau \<in> set [0..<h]"
    then have "tau < h" by simp
    then show "(if tau = 0 then 0 else \<Sum>i<h. (?xs ! i - ?xs ! (i + tau))\<^sup>2) =
               (if 1 \<le> tau \<and> tau + 2 \<le> h then 3 else 0)"
      by (rule val)
  qed
  then show ?thesis
    using difference_Fin [OF len] unfolding h(1) by (simp only:)
qed

lemma impulse_cmnd:
  assumes h: "length (yinBuffer s) = h" "3 \<le> h"
  defines "yb \<equiv> yinBuffer (cumulativeMeanNormalizedDifference (difference s
      (map Fin ((replicate (2 * h) 0)[0 := 1, h - 1 := 1, 2 * h - 2 := 1]))))"
  shows "length yb = h"
    and "\<And>tau. 1 \<le> tau \<Longrightarrow> tau + 2 \<le> h \<Longrightarrow> yb ! tau = Fin 1"
    and "yb ! (h - 1) = Fin 0"
proof -
  let ?ds = "map (\<lambda>tau. if 1 \<le> tau \<and> tau + 2 \<le> h then 3 else (0::real)) [0..<h]"
  note d = impulse_difference [OF h]
  show "length yb = h"
    unfolding yb_def using cmnd_length [OF d] by simp
  show "yb ! tau = Fin 1" if t: "1 \<le> tau" "tau + 2 \<le> h" for tau
  proof -
    have "(\<Sum>j\<in>{1..tau}. ?ds ! j) = (\<Sum>j\<in>{1..tau}. 3)"
      using t by (intro sum.cong) auto
    then have S: "(\<Sum>j\<in>{1..tau}. ?ds ! j) = 3 * real tau" by simp
    have "yb ! tau = js_mul (Fin (?ds ! tau)) (js_div (Fin (real tau)) (Fin (\<Sum>j\<in>{1..tau}. ?ds ! j)))"
      unfolding yb_def using t by (intro cmnd_nth [OF d]) simp_all
    also have "\<dots> = Fin 1"
      unfolding S using t by simp
    finally show ?thesis .
  qed
  show "yb ! (h - 1) = Fin 0"
  proof -
    have "?ds ! 1 \<le> (\<Sum>j\<in>{1..h - 1}. ?ds ! j)"
      using h(2) by (intro member_le_sum) auto
    then have S: "(\<Sum>j\<in>{1..h - 1}. ?ds ! j) \<noteq> 0"
      using h(2) by simp
    have "yb ! (h - 1) = js_mul (Fin (?ds ! (h - 1)))
        (js_div (Fin (real (h - 1))) (Fin (\<Sum>j\<in>{1..h - 1}. ?ds ! j)))"
      unfolding yb_def using h(2) by (intro cmnd_nth [OF d]) simp_all
    also have "\<dots> = Fin 0"
      using S h(2) by simp
    finally show ?thesis .
  qed
qed

lemma impulse_threshold:
  assumes h: "length (yinBuffer s) = h" "3 \<le> h"
  shows "absoluteThreshold (cumulativeMeanNormalizedDifference (difference s
      (map Fin ((replicate (2 * h) 0)[0 := 1, h - 1 := 1, 2 * h - 2 := 1])))) = int h - 1"
proof -
  define yb where "yb = yinBuffer (cumulativeMeanNormalizedDifference (difference s
      (map Fin ((replicate (2 * h) 0)[0 := 1, h - 1 := 1, 2 * h - 2 := 1]))))"
  note yb = impulse_cmnd [OF h, folded yb_def]
  obtain k where k: "h = Suc k" "2 \<le> k"
    using h(2) by (cases h) auto
  have last: "yb ! k = Fin 0" using yb(3) k by simp
  have len: "length yb = Suc k" using yb(1) k by simp
  have "absoluteThreshold_scan yb 1 = absoluteThreshold_scan yb k"
  proof (rule scan_skip)
    fix tau assume "1 \<le> tau" and "tau < k"
    then have "yb ! tau = Fin 1" using k by (intro yb(2)) simp_all
    then show "\<not> js_lt (yb ! tau) YIN_THRESHOLD" by (simp add: YIN_THRESHOLD_def)
  next
    show "1 \<le> k" using k by simp
  next
    show "k \<le> length yb" by (simp add: len)
  qed
  also have "\<dots> = int (absoluteThreshold_descend yb k)"
    by (subst absoluteThreshold_scan.simps) (simp add: len last YIN_THRESHOLD_def)
  also have "absoluteThreshold_descend yb k = k"
    by (subst absoluteThreshold_descend.simps) (simp add: len)
  finally show ?thesis
    using k by (simp add: absoluteThreshold_def yb_def)
qed

lemma boundary_frame_eq:
  "boundary_frame = map Fin ((replicate (2 * 1024) 0)[0 := 1, 1024 - 1 := 1, 2 * 1024 - 2 := 1])"
  by (simp add: boundary_frame_def map_update)

lemma boundary_threshold:
  "absoluteThreshold (cumulativeMeanNormalizedDifference
     (difference AudioProcessor_new boundary_frame)) = 1023"
  unfolding boundary_frame_eq
  using impulse_threshold [of AudioProcessor_new 1024]
  by (simp add: new_lengths BUFFER_SIZE_def)

lemma boundary_length:
  "length (yinBuffer (cumulativeMeanNormalizedDifference
     (difference AudioProcessor_new boundary_frame))) = 1024"
  unfolding boundary_frame_eq
  using impulse_cmnd(1) [of AudioProcessor_new 1024]
  by (simp add: new_lengths BUFFER_SIZE_def)

lemma threshold_range:
  "absoluteThreshold s \<noteq> - 1 \<Longrightarrow>
     1 \<le> absoluteThreshold s \<and> absoluteThreshold s < int (length (yinBuffer s))"
  using scan_range [of "yinBuffer s" 1] by (simp add: absoluteThreshold_def)

lemma detectPitch_found:
  "absoluteThreshold (cumulativeMeanNormalizedDifference (difference s buffer)) \<noteq> - 1 \<Longrightarrow>
     snd (detectPitch s buffer) =
       Some (js_div SAMPLE_RATE
         (parabolicInterpolation (cumulativeMeanNormalizedDifference (difference s buffer))
            (absoluteThreshold (cumulativeMeanNormalizedDifference (difference s buffer)))))"
  by (simp add: detectPitch_def Let_def)

text \<open>
  What holds for every frame. When the threshold search returns a lag \<open>tau\<close>, it lies
  between 1 and the last index of the buffer, so \<open>tau\<close> and its left neighbour
  \<open>tau - 1\<close> are read inside the buffer, and \<open>detectPitch\<close> returns the sample rate
  divided by the interpolated lag. The right neighbour \<open>tau + 1\<close> is inside the buffer
  except when \<open>tau\<close> is the last index; there the read gives \<^verbatim>\<open>undefined\<close> and the
  interpolated lag and the pitch are NaN.
\<close>

theorem interpolation_neighbours:
  assumes s1: "s1 = cumulativeMeanNormalizedDifference (difference s buffer)"
    and tau: "absoluteThreshold s1 = tau" and found: "tau \<noteq> - 1"
  shows "1 \<le> tau \<and> tau < int (length (yinBuffer s1)) \<and>
         ta_get (yinBuffer s1) (tau - 1) \<noteq> None \<and>
         ta_get (yinBuffer s1) tau \<noteq> None \<and>
         (ta_get (yinBuffer s1) (tau + 1) = None) = (tau = int (length (yinBuffer s1)) - 1) \<and>
         snd (detectPitch s buffer) =
           Some (js_div SAMPLE_RATE (parabolicInterpolation s1 tau)) \<and>
         (tau = int (length (yinBuffer s1)) - 1 \<longrightarrow>
            parabolicInterpolation s1 tau = NaN \<and> snd (detectPitch s buffer) = Some NaN)"
proof -
  have range: "1 \<le> tau" "tau < int (length (yinBuffer s1))"
    using threshold_range [of s1] tau found by simp_all
  have dp: "snd (detectPitch s buffer) =
      Some (js_div SAMPLE_RATE (parabolicInterpolation s1 tau))"
    using detectPitch_found [of s buffer] tau found s1 by simp
  have last: "parabolicInterpolation s1 tau = NaN \<and> snd (detectPitch s buffer) = Some NaN"
    if "tau = int (length (yinBuffer s1)) - 1"
    using parabolicInterpolation_boundary [of tau s1] that dp
    by (simp add: SAMPLE_RATE_def)
  show ?thesis
    using range dp last by (auto simp: ta_get_def)
qed

text \<open>
  Claim C4 asks that interpolation be skipped, and the integer lag used, when the lag has
  no right neighbour, so that no index outside the buffer is read. The code has no such
  guard in \<open>parabolicInterpolation\<close>, although the descent loop of
  \<open>absoluteThreshold\<close> checks the same index \<open>tau + 1\<close> against the length. On the frame
  with impulses at 0, 1023 and 2046 the search returns the last lag 1023, index 1024 is
  read outside the buffer of 1024 values, and \<open>detectPitch\<close> returns NaN where the claim
  gives the lag 1023, a pitch of 44100 / 1023 Hz.
\<close>

theorem boundary_lag_is_interpolated:
  "absoluteThreshold (cumulativeMeanNormalizedDifference
      (difference AudioProcessor_new boundary_frame)) = 1023 \<and>
   ta_get (yinBuffer (cumulativeMeanNormalizedDifference
      (difference AudioProcessor_new boundary_frame))) (1023 + 1) = None \<and>
   parabolicInterpolation (cumulativeMeanNormalizedDifference
      (difference AudioProcessor_new boundary_frame)) 1023 = NaN \<and>
   snd (detectPitch AudioProcessor_new boundary_frame) = Some NaN"
proof -
  let ?s1 = "cumulativeMeanNormalizedDifference (difference AudioProcessor_new boundary_frame)"
  have out: "ta_get (yinBuffer ?s1) (1023 + 1) = None"
    by (simp add: ta_get_def boundary_length)
  have pi: "parabolicInterpolation ?s1 1023 = NaN"
    by (rule parabolicInterpolation_boundary) (simp add: boundary_length)
  have "snd (detectPitch AudioProcessor_new boundary_frame) = Some NaN"
    using detectPitch_found [of AudioProcessor_new boundary_frame]
    by (simp add: boundary_threshold pi SAMPLE_RATE_def)
  with out pi boundary_threshold show ?thesis by blast
qed

lemma length_concat_pairs: "length (concat (replicate n [a, b])) = 2 * n"
  by (induction n) simp_all

lemma nth_concat_pairs:
  "i < 2 * n \<Longrightarrow> concat (replicate n [a, b]) ! i = (if even i then a else b)"
proof (induction n arbitrary: i)
  case 0
  then show ?case by simp
next
  case (Suc n)
  show ?case
  proof (cases i)
    case 0
    then show ?thesis by simp
  next
    case (Suc j)
    show ?thesis
    proof (cases j)
      case 0
      with Suc show ?thesis by simp
    next
      case (Suc k)
      with \<open>i = Suc j\<close> Suc.prems have "k < 2 * n" by simp
      from Suc.IH [OF this] show ?thesis
        using \<open>i = Suc j\<close> \<open>j = Suc k\<close> by simp
    qed
  qed
qed

lemma alternating_nth:
  assumes "i < 2 * h"
  shows "(concat (replicate h [1, - 1 :: real]))[0 := 1 / 2] ! i =
           (if i = 0 then 1 / 2 else if even i then 1 else - 1)"
  using assms by (simp add: nth_list_update length_concat_pairs nth_concat_pairs)

lemma alternating_sum_odd:
  fixes h tau :: nat
  assumes "odd tau" and "1 \<le> h"
  defines "x \<equiv> \<lambda>i. if i = 0 then 1 / 2 else if even i then 1 else - (1::real)"
  shows "(\<Sum>i<h. (x i - x (i + tau))\<^sup>2) = 9 / 4 + 4 * real (h - 1)"
proof -
  have "(\<Sum>i<h. (x i - x (i + tau))\<^sup>2) =
        (x 0 - x tau)\<^sup>2 + (\<Sum>i\<in>{Suc 0..<h}. (x i - x (i + tau))\<^sup>2)"
    using assms(2) by (simp add: lessThan_atLeast0 sum.atLeast_Suc_lessThan)
  also have "(\<Sum>i\<in>{Suc 0..<h}. (x i - x (i + tau))\<^sup>2) = (\<Sum>i\<in>{Suc 0..<h}. 4)"
    using assms(1) by (intro sum.cong) (auto simp: x_def power2_eq_square)
  also have "(x 0 - x tau)\<^sup>2 = 9 / 4"
  proof -
    have "0 < tau" using assms(1) by (cases tau) simp_all
    then show ?thesis using assms(1) by (simp add: x_def power2_eq_square)
  qed
  finally show ?thesis by simp
qed

lemma alternating_sum_even:
  fixes h tau :: nat
  assumes "even tau" and "0 < tau" and "1 \<le> h"
  defines "x \<equiv> \<lambda>i. if i = 0 then 1 / 2 else if even i then 1 else - (1::real)"
  shows "(\<Sum>i<h. (x i - x (i + tau))\<^sup>2) = 1 / 4"
proof -
  have "(\<Sum>i<h. (x i - x (i + tau))\<^sup>2) =
        (x 0 - x tau)\<^sup>2 + (\<Sum>i\<in>{Suc 0..<h}. (x i - x (i + tau))\<^sup>2)"
    using assms(3) by (simp add: lessThan_atLeast0 sum.atLeast_Suc_lessThan)
  also have "(\<Sum>i\<in>{Suc 0..<h}. (x i - x (i + tau))\<^sup>2) = (\<Sum>i\<in>{Suc 0..<h}. 0)"
    using assms(1) by (intro sum.cong) (auto simp: x_def)
  also have "(x 0 - x tau)\<^sup>2 = 1 / 4"
    using assms(1,2) by (auto simp: x_def power2_eq_square)
  finally show ?thesis by simp
qed

lemma alternating_difference:
  assumes h: "length (yinBuffer s) = h" "1 \<le> h"
  shows "yinBuffer (difference s (map Fin ((concat (replicate h [1, - 1]))[0 := 1 / 2]))) =
         map Fin (map (\<lambda>tau. if tau = 0 then 0 else if odd tau then 9 / 4 + 4 * real (h - 1)
                              else 1 / 4) [0..<h])"
proof -
  let ?xs = "(concat (replicate h [1, - 1 :: real]))[0 := 1 / 2]"
  let ?x = "\<lambda>i. if i = 0 then 1 / 2 else if even i then 1 else - (1::real)"
  have sum: "(\<Sum>i<h. (?xs ! i - ?xs ! (i + tau))\<^sup>2) = (\<Sum>i<h. (?x i - ?x (i + tau))\<^sup>2)"
    if "tau < h" for tau
  proof (rule sum.cong [OF refl])
    fix i assume "i \<in> {..<h}"
    then have "i < 2 * h" "i + tau < 2 * h" using that by simp_all
    then show "(?xs ! i - ?xs ! (i + tau))\<^sup>2 = (?x i - ?x (i + tau))\<^sup>2"
      by (simp only: alternating_nth)
  qed
  have len: "2 * length (yinBuffer s) \<le> length ?xs"
    using h by (simp add: length_concat_pairs)
  have "map (\<lambda>tau. if tau = 0 then 0 else \<Sum>i<h. (?xs ! i - ?xs ! (i + tau))\<^sup>2) [0..<h] =
        map (\<lambda>tau. if tau = 0 then 0 else if odd tau then 9 / 4 + 4 * real (h - 1) else 1 / 4)
          [0..<h]"
  proof (rule map_cong [OF refl])
    fix tau assume "tau \<in> set [0..<h]"
    then have t: "tau < h" by simp
    show "(if tau = 0 then 0 else \<Sum>i<h. (?xs ! i - ?xs ! (i + tau))\<^sup>2) =
          (if tau = 0 then 0 else if odd tau then 9 / 4 + 4 * real (h - 1) else 1 / 4)"
    proof (cases "tau = 0")
      case True
      then show ?thesis by simp
    next
      case False
      show ?thesis
      proof (cases "odd tau")
        case True
        have "(\<Sum>i<h. (?xs ! i - ?xs ! (i + tau))\<^sup>2) = 9 / 4 + 4 * real (h - 1)"
          unfolding sum [OF t] by (rule alternating_sum_odd [OF True h(2)])
        with False True show ?thesis by (simp only: if_True if_False simp_thms)
      next
        case even: False
        then have e: "even tau" by simp
        from False have pos: "0 < tau" by simp
        have "(\<Sum>i<h. (?xs ! i - ?xs ! (i + tau))\<^sup>2) = 1 / 4"
          unfolding sum [OF t] by (rule alternating_sum_even [OF e pos h(2)])
        with False even show ?thesis by (simp only: if_True if_False simp_thms)
      qed
    qed
  qed
  then show ?thesis
    using difference_Fin [OF len] unfolding h(1) by (simp only:)
qed

lemma alternating_frame_eq:
  "alternating_frame = map Fin ((concat (replicate 1024 [1, - 1]))[0 := 1 / 2])"
  by (simp add: alternating_frame_def map_update map_concat)

lemma alternating_cmnd:
  defines "yb \<equiv> yinBuffer (cumulativeMeanNormalizedDifference
      (difference AudioProcessor_new alternating_frame))"
  shows "length yb = 1024"
    and "yb ! Suc 0 = Fin 1"
    and "yb ! 2 = Fin (1 / 8189)"
    and "yb ! 3 = Fin (49131 / 32755)"
proof -
  define ds :: "real list" where
    "ds = map (\<lambda>tau. if tau = 0 then 0 else if odd tau then 9 / 4 + 4 * real (1024 - 1)
                       else 1 / 4) [0..<1024]"
  have h: "length (yinBuffer AudioProcessor_new) = 1024" "1 \<le> (1024::nat)"
    by (simp_all add: new_lengths BUFFER_SIZE_def)
  have d: "yinBuffer (difference AudioProcessor_new alternating_frame) = map Fin ds"
    unfolding alternating_frame_eq ds_def by (rule alternating_difference [OF h])
  have len: "length ds = 1024" by (simp add: ds_def)
  have v: "ds ! Suc 0 = 16377 / 4" "ds ! 2 = 1 / 4" "ds ! 3 = 16377 / 4"
    by (simp_all add: ds_def)
  have sets: "{1..1::nat} = {1}" "{1..2::nat} = {1, 2}" "{1..3::nat} = {1, 2, 3}"
    by auto
  have S: "(\<Sum>j\<in>{1..1}. ds ! j) = 16377 / 4" "(\<Sum>j\<in>{1..2}. ds ! j) = 16378 / 4"
    "(\<Sum>j\<in>{1..3}. ds ! j) = 32755 / 4"
    unfolding sets by (simp_all add: v)
  show "length yb = 1024"
    unfolding yb_def using cmnd_length [OF d] len by simp
  have "yb ! 1 = js_mul (Fin (ds ! 1)) (js_div (Fin (real 1)) (Fin (\<Sum>j\<in>{1..1}. ds ! j)))"
    unfolding yb_def by (rule cmnd_nth [OF d]) (simp_all add: len)
  then show "yb ! Suc 0 = Fin 1" unfolding S by (simp add: v)
  have "yb ! 2 = js_mul (Fin (ds ! 2)) (js_div (Fin (real 2)) (Fin (\<Sum>j\<in>{1..2}. ds ! j)))"
    unfolding yb_def by (rule cmnd_nth [OF d]) (simp_all add: len)
  then show "yb ! 2 = Fin (1 / 8189)" unfolding S v by simp
  have "yb ! 3 = js_mul (Fin (ds ! 3)) (js_div (Fin (real 3)) (Fin (\<Sum>j\<in>{1..3}. ds ! j)))"
    unfolding yb_def by (rule cmnd_nth [OF d]) (simp_all add: len)
  then show "yb ! 3 = Fin (49131 / 32755)" unfolding S v by simp
qed

lemma scan_miss:
  "tau < length yb \<Longrightarrow> \<not> js_lt (yb ! tau) YIN_THRESHOLD \<Longrightarrow>
     absoluteThreshold_scan yb tau = absoluteThreshold_scan yb (Suc tau)"
  by (subst absoluteThreshold_scan.simps) simp

lemma scan_hit:
  "tau < length yb \<Longrightarrow> js_lt (yb ! tau) YIN_THRESHOLD \<Longrightarrow>
     absoluteThreshold_scan yb tau = int (absoluteThreshold_descend yb tau)"
  by (subst absoluteThreshold_scan.simps) simp

lemma descend_stop:
  "Suc tau < length yb \<Longrightarrow> \<not> js_lt (yb ! Suc tau) (yb ! tau) \<Longrightarrow>
     absoluteThreshold_descend yb tau = tau"
  using ta_get_in [of "Suc tau" yb] by (subst absoluteThreshold_descend.simps) simp

lemma alternating_threshold:
  "absoluteThreshold (cumulativeMeanNormalizedDifference
     (difference AudioProcessor_new alternating_frame)) = 2"
proof -
  define yb where "yb = yinBuffer (cumulativeMeanNormalizedDifference
      (difference AudioProcessor_new alternating_frame))"
  note yb = alternating_cmnd [folded yb_def]
  have y1: "yb ! Suc 0 = Fin 1" by (rule yb(2))
  have y2: "yb ! Suc (Suc 0) = Fin (1 / 8189)"
    using yb(3) by (simp add: numeral_2_eq_2)
  have y3: "yb ! Suc (Suc (Suc 0)) = Fin (49131 / 32755)"
    using yb(4) by (simp add: numeral_3_eq_3)
  have "absoluteThreshold_scan yb (Suc 0) = absoluteThreshold_scan yb (Suc (Suc 0))"
    by (rule scan_miss) (simp_all add: yb(1) y1 YIN_THRESHOLD_def)
  also have "\<dots> = int (absoluteThreshold_descend yb (Suc (Suc 0)))"
    by (rule scan_hit) (simp_all add: yb(1) y2 YIN_THRESHOLD_def)
  also have "absoluteThreshold_descend yb (Suc (Suc 0)) = Suc (Suc 0)"
    by (rule descend_stop) (simp_all add: yb(1) y2 y3)
  finally show ?thesis
    by (simp add: absoluteThreshold_def yb_def)
qed

lemma alternating_interpolation:
  "parabolicInterpolation (cumulativeMeanNormalizedDifference
     (difference AudioProcessor_new alternating_frame)) 2 = Fin (155587 / 81888)"
proof -
  define yb where "yb = yinBuffer (cumulativeMeanNormalizedDifference
      (difference AudioProcessor_new alternating_frame))"
  note yb = alternating_cmnd [folded yb_def]
  have g: "ta_get yb 1 = Some (Fin 1)" "ta_get yb 2 = Some (Fin (1 / 8189))"
    "ta_get yb 3 = Some (Fin (49131 / 32755))"
    using ta_get_in [of 1 yb] ta_get_in [of 2 yb] ta_get_in [of 3 yb] by (simp_all add: yb)
  show ?thesis
    unfolding parabolicInterpolation_def yb_def [symmetric]
    by (simp add: g Let_def js_sub_def)
qed

lemma alternating_detectPitch:
  "snd (detectPitch AudioProcessor_new alternating_frame) = Some (Fin (3611260800 / 155587))"
  using detectPitch_found [of AudioProcessor_new alternating_frame]
  by (simp add: alternating_threshold alternating_interpolation SAMPLE_RATE_def)

lemma detectPitch_cong:
  assumes "length (yinBuffer s) = length (yinBuffer s')"
  shows "snd (detectPitch s buffer) = snd (detectPitch s' buffer)"
proof -
  have d: "yinBuffer (difference s buffer) = yinBuffer (difference s' buffer)"
    by (simp only: difference_yinBuffer assms)
  then have c: "yinBuffer (cumulativeMeanNormalizedDifference (difference s buffer)) =
      yinBuffer (cumulativeMeanNormalizedDifference (difference s' buffer))"
    by (simp add: cumulativeMeanNormalizedDifference_def Let_def)
  then show ?thesis
    by (simp add: detectPitch_def Let_def absoluteThreshold_def parabolicInterpolation_def)
qed

lemma length_alternating_frame: "length alternating_frame = 2048"
  by (simp add: alternating_frame_def length_concat_pairs)

lemma alternating_processAudio:
  "snd (processAudio AudioProcessor_new alternating_frame) =
     Inr (Some (Fin (3611260800 / 155587)))"
proof -
  let ?s0 = "AudioProcessor_new\<lparr>audioBuffer := alternating_frame\<rparr>"
  have "snd (detectPitch ?s0 alternating_frame) = Some (Fin (3611260800 / 155587))"
    using detectPitch_cong [of ?s0 AudioProcessor_new alternating_frame]
    by (simp add: alternating_detectPitch)
  then show ?thesis
    by (simp add: processAudio_def Let_def length_alternating_frame new_lengths BUFFER_SIZE_def)
qed

text \<open>
  Claim C7, as amended. \<open>detectPitch\<close> returns a frequency only. When the pitch callback
  is called with a pitch \<open>p\<close>, the estimate handed to the note tracker is the single pair
  of the frequency \<open>p\<close> and the probability 1.0: the confidence is the constant 1, not a
  value computed from the normalised difference at the detected lag.
\<close>

theorem confidence_is_constant:
  assumes "snd (processAudio (audioProcessor app) frame) = Inr (Some p)"
  shows "map freq (detectedPitches p) = [p] \<and>
         map probability (detectedPitches p) = [Fin 1] \<and>
         midiConverter (fst (onaudioprocess app frame)) =
           handleDetectedPitches (midiConverter app) (detectedPitches p) (noteThreshold app)"
  using assms
  by (simp add: onaudioprocess_def Let_def handlePitchDetected_def detectedPitches_def)

theorem confidence_is_constant_witness:
  "snd (processAudio (audioProcessor App_new) alternating_frame) =
     Inr (Some (Fin (3611260800 / 155587))) \<and>
   map probability (detectedPitches (Fin (3611260800 / 155587))) = [Fin 1] \<and>
   midiConverter (fst (onaudioprocess App_new alternating_frame)) =
     handleDetectedPitches (midiConverter App_new)
       (detectedPitches (Fin (3611260800 / 155587))) (noteThreshold App_new)"
proof -
  have p: "snd (processAudio (audioProcessor App_new) alternating_frame) =
      Inr (Some (Fin (3611260800 / 155587)))"
    using alternating_processAudio by (simp add: App_new_def)
  from confidence_is_constant [OF p] p show ?thesis by blast
qed

text \<open>
  Claim C7 as stated fails on the alternating frame: a pitch is detected at lag 2, where
  the normalised difference is 1/8189, so the claimed confidence is 8188/8189, but the
  probability handed on with the pitch is 1.
\<close>

theorem confidence_not_reported:
  "absoluteThreshold (cumulativeMeanNormalizedDifference
      (difference AudioProcessor_new alternating_frame)) = 2 \<and>
   ToNumber (ta_get (yinBuffer (cumulativeMeanNormalizedDifference
      (difference AudioProcessor_new alternating_frame))) 2) = Fin (1 / 8189) \<and>
   js_sub (Fin 1) (Fin (1 / 8189)) = Fin (8188 / 8189) \<and>
   snd (processAudio AudioProcessor_new alternating_frame) =
     Inr (Some (Fin (3611260800 / 155587))) \<and>
   map probability (detectedPitches (Fin (3611260800 / 155587))) = [Fin 1] \<and>
   Fin 1 \<noteq> Fin (8188 / 8189)"
proof -
  have "ToNumber (ta_get (yinBuffer (cumulativeMeanNormalizedDifference
      (difference AudioProcessor_new alternating_frame))) 2) = Fin (1 / 8189)"
    using ta_get_in [of 2 "yinBuffer (cumulativeMeanNormalizedDifference
      (difference AudioProcessor_new alternating_frame))"]
    by (simp add: alternating_cmnd)
  then show ?thesis
    by (simp add: alternating_threshold alternating_processAudio detectedPitches_def js_sub_def)
qed

theorem interpolation_neighbours_witness:
  "absoluteThreshold (cumulativeMeanNormalizedDifference
      (difference AudioProcessor_new alternating_frame)) = 2 \<and>
   ta_get (yinBuffer (cumulativeMeanNormalizedDifference
      (difference AudioProcessor_new alternating_frame))) (2 - 1) \<noteq> None \<and>
   ta_get (yinBuffer (cumulativeMeanNormalizedDifference
      (difference AudioProcessor_new alternating_frame))) (2 + 1) \<noteq> None \<and>
   absoluteThreshold (cumulativeMeanNormalizedDifference
      (difference AudioProcessor_new boundary_frame)) = 1023 \<and>
   1023 = int (length (yinBuffer (cumulativeMeanNormalizedDifference
      (difference AudioProcessor_new boundary_frame)))) - 1 \<and>
   ta_get (yinBuffer (cumulativeMeanNormalizedDifference
      (difference AudioProcessor_new boundary_frame))) (1023 - 1) \<noteq> None \<and>
   ta_get (yinBuffer (cumulativeMeanNormalizedDifference
      (difference AudioProcessor_new boundary_frame))) (1023 + 1) = None \<and>
   snd (detectPitch AudioProcessor_new boundary_frame) = Some NaN"
proof -
  let ?a = "cumulativeMeanNormalizedDifference (difference AudioProcessor_new alternating_frame)"
  let ?b = "cumulativeMeanNormalizedDifference (difference AudioProcessor_new boundary_frame)"
  have ta: "absoluteThreshold ?a = 2" by (rule alternating_threshold)
  have tb: "absoluteThreshold ?b = 1023" by (rule boundary_threshold)
  have lb: "1023 = int (length (yinBuffer ?b)) - 1" by (simp add: boundary_length)
  have la: "(2::int) \<noteq> int (length (yinBuffer ?a)) - 1" by (simp add: alternating_cmnd)
  have na: "(2::int) \<noteq> - 1" and nb: "(1023::int) \<noteq> - 1" by simp_all
  note a = interpolation_neighbours [OF refl ta na]
  note b = interpolation_neighbours [OF refl tb nb]
  have "ta_get (yinBuffer ?a) (2 - 1) \<noteq> None" "ta_get (yinBuffer ?a) (2 + 1) \<noteq> None"
    using a la by blast+
  moreover have "ta_get (yinBuffer ?b) (1023 - 1) \<noteq> None"
    "ta_get (yinBuffer ?b) (1023 + 1) = None"
    "snd (detectPitch AudioProcessor_new boundary_frame) = Some NaN"
    using b lb by blast+
  ultimately show ?thesis using ta tb lb by blast
qed


end
